theory Spec2Isabelle
  imports Complex_Main "HOL-Library.Word" "HOL-Library.Monad_Syntax" "HOL-Library.Log_Nat"
begin

unbundle bit_operations_syntax

section \<open>Zero-suppression codec (compression.cpp)\<close>

type_synonym u8 = "8 word"
type_synonym u16 = "16 word"
type_synonym u32 = "32 word"

text \<open>
  Every \<^verbatim>\<open>throw std::runtime_error\<close> of the two codec functions is one constructor,
  named after the message it carries.
\<close>

datatype error =
    CompressOverflow
  | BadOriginalLength
  | UnexpectedEnd
  | TruncatedData
  | DecompressOverflow

text \<open>
  \<^verbatim>\<open>std::vector::resize(n)\<close>: cut to \<open>n\<close> elements, or pad with zero bytes up to \<open>n\<close>.
\<close>

definition resize :: "u8 list \<Rightarrow> nat \<Rightarrow> u8 list" where
  "resize buf n = take n buf @ replicate (n - length buf) 0"

subsection \<open>compressPacket\<close>

text \<open>
  The inner \<^verbatim>\<open>for (uint8_t bit = 0; bit < 8 && inPos < n; ++bit, ++inPos)\<close> loop.
  The state is \<open>(maskB, inPos, outPos, outBuf)\<close>; the loop counter \<open>bit\<close> stays below 8,
  so a natural number holds it.
\<close>

function compress_group ::
  "u8 list \<Rightarrow> nat \<Rightarrow> u8 \<Rightarrow> nat \<Rightarrow> nat \<Rightarrow> u8 list \<Rightarrow> error + (u8 \<times> nat \<times> nat \<times> u8 list)" where
  "compress_group input bitIx maskB inPos outPos outBuf =
     (if bitIx < 8 \<and> inPos < length input then
        let v = input ! inPos in
        if v \<noteq> 0 then
          let maskB' = maskB OR push_bit bitIx 1 in
          if outPos \<ge> 1024 then Inl CompressOverflow
          else compress_group input (bitIx + 1) maskB' (inPos + 1) (outPos + 1) (outBuf[outPos := v])
        else compress_group input (bitIx + 1) maskB (inPos + 1) outPos outBuf
      else Inr (maskB, inPos, outPos, outBuf))"
  by pat_completeness auto
termination
  by (relation "measure (\<lambda>(input, bitIx, maskB, inPos, outPos, outBuf). 8 - bitIx)") auto

declare compress_group.simps [simp del]

lemma compress_group_inPos_le:
  "compress_group input bitIx maskB inPos outPos outBuf = Inr (m, i, p, b) \<Longrightarrow> inPos \<le> i"
proof (induction input bitIx maskB inPos outPos outBuf rule: compress_group.induct)
  case (1 input bitIx maskB inPos outPos outBuf)
  note step = "1.prems" [unfolded compress_group.simps [of input bitIx maskB inPos outPos outBuf]]
  show ?case
    using step "1.IH"(1) [OF _ refl _ refl] "1.IH"(2) [OF _ refl]
    by (auto simp: Let_def split: if_splits)
qed

lemma compress_group_inPos:
  assumes "compress_group input bitIx maskB inPos outPos outBuf = Inr (m, i, p, b)"
    and "bitIx < 8" and "inPos < length input"
  shows "inPos < i"
proof -
  note step = assms(1) [unfolded compress_group.simps [of input bitIx maskB inPos outPos outBuf]]
  from step assms(2,3) have "inPos + 1 \<le> i"
    by (auto simp: Let_def split: if_splits dest: compress_group_inPos_le)
  then show ?thesis by simp
qed

text \<open>The outer \<^verbatim>\<open>while (inPos < n)\<close> loop; it returns \<open>(outPos, outBuf)\<close>.\<close>

function compress_loop ::
  "u8 list \<Rightarrow> nat \<Rightarrow> nat \<Rightarrow> u8 list \<Rightarrow> error + (nat \<times> u8 list)" where
  "compress_loop input inPos outPos outBuf =
     (if inPos < length input then
        if outPos \<ge> 1024 then Inl CompressOverflow
        else
          let maskPos = outPos in
          (case compress_group input 0 0 inPos (outPos + 1) outBuf of
             Inl e \<Rightarrow> Inl e
           | Inr (maskB, inPos', outPos', outBuf') \<Rightarrow>
               compress_loop input inPos' outPos' (outBuf'[maskPos := maskB]))
      else Inr (outPos, outBuf))"
  by pat_completeness auto
termination
proof (relation "measure (\<lambda>(input, inPos, outPos, outBuf). length input - inPos)")
  show "wf (measure (\<lambda>(input, inPos, outPos, outBuf). length input - inPos))"
    by simp
next
  fix input :: "u8 list" and inPos outPos :: nat and outBuf :: "u8 list"
    and maskPos :: nat and x22 :: "u8 \<times> nat \<times> nat \<times> u8 list" and maskB :: u8
    and y :: "nat \<times> nat \<times> u8 list" and inPos' :: nat and ya :: "nat \<times> u8 list"
    and outPos' :: nat and outBuf' :: "u8 list"
  assume "inPos < length input" "\<not> 1024 \<le> outPos"
    and "compress_group input 0 0 inPos (outPos + 1) outBuf = Inr x22"
    and "(maskB, y) = x22" "(inPos', ya) = y" "(outPos', outBuf') = ya"
  then have "compress_group input 0 0 inPos (outPos + 1) outBuf = Inr (maskB, inPos', outPos', outBuf')"
    by simp
  from compress_group_inPos [OF this] \<open>inPos < length input\<close>
  show "((input, inPos', outPos', outBuf'[maskPos := maskB]), input, inPos, outPos, outBuf)
          \<in> measure (\<lambda>(input, inPos, outPos, outBuf). length input - inPos)"
    by simp
qed

declare compress_loop.simps [simp del]

definition compressPacket :: "u8 list \<Rightarrow> error + u8 list" where
  "compressPacket input =
     (if length input = 0 then Inr []
      else
        (case compress_loop input 0 0 (replicate 1024 0) of
           Inl e \<Rightarrow> Inl e
         | Inr (outPos, outBuf) \<Rightarrow> Inr (resize outBuf outPos)))"

subsection \<open>decompressPacket\<close>

text \<open>
  The inner \<^verbatim>\<open>for (uint8_t bit = 0; bit < 8 && writePos < originalLength; ++bit)\<close> loop,
  with state \<open>(readPos, writePos, outBuf)\<close>. The test \<^verbatim>\<open>(mask & (1 << bit)) != 0\<close> is
  taken on the byte: \<open>bit\<close> stays below 8, so the promotion to \<^verbatim>\<open>int\<close> changes nothing.
\<close>

function decompress_group ::
  "u8 list \<Rightarrow> nat \<Rightarrow> u8 \<Rightarrow> nat \<Rightarrow> nat \<Rightarrow> nat \<Rightarrow> u8 list \<Rightarrow> error + (nat \<times> nat \<times> u8 list)" where
  "decompress_group compressedBuffer originalLength maskB bitIx readPos writePos outBuf =
     (if bitIx < 8 \<and> writePos < originalLength then
        let isNonZero = (maskB AND push_bit bitIx 1 \<noteq> 0) in
        if isNonZero then
          if readPos \<ge> length compressedBuffer then Inl TruncatedData
          else if writePos \<ge> 1024 then Inl DecompressOverflow
          else decompress_group compressedBuffer originalLength maskB (bitIx + 1)
                 (readPos + 1) (writePos + 1) (outBuf[writePos := compressedBuffer ! readPos])
        else
          if writePos \<ge> 1024 then Inl DecompressOverflow
          else decompress_group compressedBuffer originalLength maskB (bitIx + 1)
                 readPos (writePos + 1) (outBuf[writePos := 0])
      else Inr (readPos, writePos, outBuf))"
  by pat_completeness auto
termination
  by (relation "measure (\<lambda>(c, n, maskB, bitIx, readPos, writePos, outBuf). 8 - bitIx)") auto

declare decompress_group.simps [simp del]

lemma decompress_group_readPos_le:
  "decompress_group c n maskB bitIx readPos writePos outBuf = Inr (r, w, b) \<Longrightarrow> readPos \<le> r"
proof (induction c n maskB bitIx readPos writePos outBuf rule: decompress_group.induct)
  case (1 c n maskB bitIx readPos writePos outBuf)
  note step = "1.prems" [unfolded decompress_group.simps [of c n maskB bitIx readPos writePos outBuf]]
  show ?case
    using step "1.IH"(1) [OF _ refl] "1.IH"(2) [OF _ refl]
    by (auto simp: Let_def split: if_splits)
qed

text \<open>The outer \<^verbatim>\<open>while (readPos < compressedBuffer.size() && writePos < originalLength)\<close> loop.\<close>

function decompress_loop ::
  "u8 list \<Rightarrow> nat \<Rightarrow> nat \<Rightarrow> nat \<Rightarrow> u8 list \<Rightarrow> error + u8 list" where
  "decompress_loop compressedBuffer originalLength readPos writePos outBuf =
     (if readPos < length compressedBuffer \<and> writePos < originalLength then
        if readPos \<ge> length compressedBuffer then Inl UnexpectedEnd
        else
          let maskB = compressedBuffer ! readPos in
          (case decompress_group compressedBuffer originalLength maskB 0 (readPos + 1) writePos outBuf of
             Inl e \<Rightarrow> Inl e
           | Inr (readPos', writePos', outBuf') \<Rightarrow>
               decompress_loop compressedBuffer originalLength readPos' writePos' outBuf')
      else Inr outBuf)"
  by pat_completeness auto
termination
proof (relation "measure (\<lambda>(c, n, readPos, writePos, outBuf). length c - readPos)")
  show "wf (measure (\<lambda>(c, n, readPos, writePos, outBuf). length c - readPos))"
    by simp
next
  fix c :: "u8 list" and n readPos writePos :: nat and outBuf :: "u8 list" and maskB :: u8
    and x22 :: "nat \<times> nat \<times> u8 list" and readPos' :: nat and y :: "nat \<times> u8 list"
    and writePos' :: nat and outBuf' :: "u8 list"
  assume "readPos < length c \<and> writePos < n"
    and "decompress_group c n maskB 0 (readPos + 1) writePos outBuf = Inr x22"
    and "(readPos', y) = x22" "(writePos', outBuf') = y"
  then have "decompress_group c n maskB 0 (readPos + 1) writePos outBuf = Inr (readPos', writePos', outBuf')"
    by simp
  from decompress_group_readPos_le [OF this] \<open>readPos < length c \<and> writePos < n\<close>
  show "((c, n, readPos', writePos', outBuf'), c, n, readPos, writePos, outBuf)
          \<in> measure (\<lambda>(c, n, readPos, writePos, outBuf). length c - readPos)"
    by auto
qed

declare decompress_loop.simps [simp del]

definition decompressPacket :: "u8 list \<Rightarrow> nat \<Rightarrow> error + u8 list" where
  "decompressPacket compressedBuffer originalLength =
     (if originalLength > 1024 then Inl BadOriginalLength
      else
        (case decompress_loop compressedBuffer originalLength 0 0 (replicate 1024 0) of
           Inl e \<Rightarrow> Inl e
         | Inr outBuf \<Rightarrow> Inr (resize outBuf originalLength)))"

subsection \<open>The codec as the specification describes it\<close>

text \<open>
  The specification's description of the format, written on lists: the input is cut into
  groups of 8 consecutive bytes; each group gives one mask byte followed by the non-zero
  bytes of the group in order; bit \<open>i\<close> of the mask (bit 0 the least significant) is set
  iff byte \<open>i\<close> of the group is non-zero. \<open>zs_encode\<close> has no size limit; it is the
  output that \<open>compressPacket\<close> "would" produce.
\<close>

fun group_mask :: "nat \<Rightarrow> u8 list \<Rightarrow> u8" where
  "group_mask i [] = 0"
| "group_mask i (v # vs) = (if v \<noteq> 0 then push_bit i 1 else 0) OR group_mask (Suc i) vs"

fun zs_encode :: "u8 list \<Rightarrow> u8 list" where
  "zs_encode [] = []"
| "zs_encode (v # vs) =
     group_mask 0 (take 8 (v # vs)) # filter (\<lambda>b. b \<noteq> 0) (take 8 (v # vs))
       @ zs_encode (drop 8 (v # vs))"

text \<open>
  A compressed buffer seen as a sequence of groups, each a mask byte with its literal bytes,
  and the number of set bits of a mask among the \<open>k\<close> positions from bit \<open>i\<close> on: the
  number of literal bytes the decoder consumes for these positions.
\<close>

definition group_bytes :: "(u8 \<times> u8 list) list \<Rightarrow> u8 list" where
  "group_bytes gs = concat (map (\<lambda>(m, ls). m # ls) gs)"

definition set_bits :: "u8 \<Rightarrow> nat \<Rightarrow> nat \<Rightarrow> nat" where
  "set_bits m i k = length (filter (bit m) [i..<i + k])"

section \<open>Wire codec: message types (message_types.h, serialization.h)\<close>

text \<open>
  \<^verbatim>\<open>int16_t\<close> and \<^verbatim>\<open>int\<close> values are 16-bit and 32-bit words read in two's complement
  (\<open>sint\<close>). A \<^verbatim>\<open>std::string\<close> is the list of its bytes.
\<close>

type_synonym i16 = "16 word"
type_synonym i32 = "32 word"

text \<open>
  A \<^verbatim>\<open>float\<close> is an IEEE 754 binary32 value: a finite value, given by the rational
  number it denotes, an infinity or a NaN. The two zeros are one value here; nothing
  below depends on the sign of a zero.
\<close>

datatype float = Finite rat | PlusInfinity | MinusInfinity | NaN

datatype ClientMessageType =
    NewConnection
  | Input
  | PlayerInputAck
  | MatchResult
  | QualityData
  | Disconnecting
  | PlayerDisconnectedAck
  | ReadyToStartMatch

datatype ServerMessageType =
    NewConnectionReply
  | StartGame
  | InputAck
  | PlayerInput
  | RequestQualityData
  | PlayersStatus
  | Kick
  | ChecksumAck
  | PlayersConfigurationData
  | PlayerDisconnected
  | ChangePort

text \<open>The enumerators' values, \<^verbatim>\<open>static_cast<uint8_t>(header.type)\<close>.\<close>

fun ServerMessageType_value :: "ServerMessageType \<Rightarrow> u8" where
  "ServerMessageType_value NewConnectionReply = 1"
| "ServerMessageType_value StartGame = 2"
| "ServerMessageType_value InputAck = 3"
| "ServerMessageType_value PlayerInput = 4"
| "ServerMessageType_value RequestQualityData = 6"
| "ServerMessageType_value PlayersStatus = 7"
| "ServerMessageType_value Kick = 8"
| "ServerMessageType_value ChecksumAck = 9"
| "ServerMessageType_value PlayersConfigurationData = 10"
| "ServerMessageType_value PlayerDisconnected = 11"
| "ServerMessageType_value ChangePort = 12"

text \<open>
  \<^verbatim>\<open>static_cast<ClientMessageType>(byte)\<close> followed by the \<^verbatim>\<open>switch\<close>: a byte that is no
  enumerator's value takes the \<^verbatim>\<open>default\<close> branch, here \<open>None\<close>.
\<close>

definition ClientMessageType_of :: "u8 \<Rightarrow> ClientMessageType option" where
  "ClientMessageType_of b =
     (if b = 1 then Some NewConnection
      else if b = 2 then Some Input
      else if b = 3 then Some PlayerInputAck
      else if b = 4 then Some MatchResult
      else if b = 5 then Some QualityData
      else if b = 6 then Some Disconnecting
      else if b = 7 then Some PlayerDisconnectedAck
      else if b = 8 then Some ReadyToStartMatch
      else None)"

record ClientHeader =
  type :: ClientMessageType
  sequence :: u32

record ServerHeader =
  type :: ServerMessageType
  sequence :: u32

record ClientPlayerConfigData =
  teamId :: u16
  playerIndex :: u16

record ClientMatchData =
  matchId :: "u8 list"
  key :: "u8 list"
  environmentId :: "u8 list"

record NewConnectionPayload =
  messageVersion :: u16
  playerData :: ClientPlayerConfigData
  matchData :: ClientMatchData

record InputPayload =
  startFrame :: u32
  clientFrame :: u32
  numFrames :: u8
  numChecksums :: u8
  inputPerFrame :: "u32 list"
  checksumPerFrame :: "u32 list"

record PlayerInputAckPayload =
  numPlayers :: u8
  ackFrame :: "u32 list"
  serverMessageSequenceNumber :: u32

record MatchResultPayload =
  numPlayers :: u8
  lastFrameChecksum :: u32
  winningTeamIndex :: u8

record QualityDataPayload =
  serverMessageSequenceNumber :: u32

record DisconnectingPayload =
  reason :: u8

record PlayerDisconnectedAckPayload =
  playerDisconnectedArrayIndex :: u8

record ReadyToStartMatchPayload =
  ready :: u8

record NewConnectionReplyPayload =
  success :: u8
  matchNumPlayers :: u8
  playerIndex :: u8
  matchDurationInFrames :: u32
  unknown :: u8
  isValidationServerDebugMode :: u8

record InputAckPayload =
  ackFrame :: u32

record PlayerInputPayload =
  numPlayers :: u8
  startFrame :: "u32 list"
  numFrames :: "u8 list"
  numPredictedOverrides :: u16
  numZeroedOverrides :: u16
  ping :: i16
  packetsLossPercent :: i16
  rift :: float
  checksumAckFrame :: u32
  inputPerFrame :: "u32 list list"

record RequestQualityDataPayload =
  ping :: i16
  packetsLossPercent :: i16

record PlayerStatusData =
  averagePing :: i16

record PlayersStatusPayload =
  numPlayers :: u8
  status :: "PlayerStatusData list"

record KickPayload =
  reason :: u16
  param1 :: u32

record ChecksumAckPayload =
  ackFrame :: u32

record PlayersConfigurationDataPayload =
  numPlayers :: u8
  configValues :: "u16 list"

record PlayerDisconnectedPayload =
  playerIndex :: u8
  shouldAITakeControl :: u8
  AITakeControlFrame :: u32
  playerDisconnectedArrayIndex :: u16

record ChangePortPayload =
  port :: u16

text \<open>The two \<^verbatim>\<open>std::variant\<close> types; \<open>Server_Monostate\<close> is \<^verbatim>\<open>std::monostate\<close>.\<close>

datatype ClientMessageVariant =
    Client_NewConnection NewConnectionPayload
  | Client_Input InputPayload
  | Client_PlayerInputAck PlayerInputAckPayload
  | Client_MatchResult MatchResultPayload
  | Client_QualityData QualityDataPayload
  | Client_Disconnecting DisconnectingPayload
  | Client_PlayerDisconnectedAck PlayerDisconnectedAckPayload
  | Client_ReadyToStartMatch ReadyToStartMatchPayload

datatype ServerMessageVariant =
    Server_NewConnectionReply NewConnectionReplyPayload
  | Server_InputAck InputAckPayload
  | Server_PlayerInput PlayerInputPayload
  | Server_RequestQualityData RequestQualityDataPayload
  | Server_PlayersStatus PlayersStatusPayload
  | Server_Kick KickPayload
  | Server_ChecksumAck ChecksumAckPayload
  | Server_PlayersConfigurationData PlayersConfigurationDataPayload
  | Server_PlayerDisconnected PlayerDisconnectedPayload
  | Server_ChangePort ChangePortPayload
  | Server_Monostate

record ClientMessageComplete =
  header :: ClientHeader
  payload :: ClientMessageVariant

section \<open>Wire codec: parseClientMessage (serialization.cpp)\<close>

text \<open>
  \<^verbatim>\<open>readLittleEndian<T>\<close> for an unsigned \<open>T\<close> of \<open>LENGTH('a)\<close> bits, so that
  \<^verbatim>\<open>sizeof(T)\<close> is \<open>LENGTH('a) div 8\<close>. A byte beyond the end of the buffer is skipped:
  the function checks every index itself.
\<close>

definition readLittleEndian :: "u8 list \<Rightarrow> nat \<Rightarrow> 'a::len word" where
  "readLittleEndian buffer offset =
     fold (\<lambda>i val.
             if offset + i < length buffer
             then val OR push_bit (i * 8) (ucast (buffer ! (offset + i)))
             else val)
          [0..<LENGTH('a) div 8] 0"

text \<open>
  \<^verbatim>\<open>buffer[i]\<close> on a \<^verbatim>\<open>std::span\<close> is not checked by the library. The model makes it
  total: \<open>None\<close> stands for an access at an index that is not below \<^verbatim>\<open>buffer.size()\<close>.
\<close>

definition span_at :: "u8 list \<Rightarrow> nat \<Rightarrow> u8 option" where
  "span_at buffer i = (if i < length buffer then Some (buffer ! i) else None)"

text \<open>
  The \<^verbatim>\<open>while\<close> loop of the \<^verbatim>\<open>readString\<close> lambda: \<open>limit\<close> is \<^verbatim>\<open>offset + maxLen\<close>.
\<close>

function string_end :: "u8 list \<Rightarrow> nat \<Rightarrow> nat \<Rightarrow> nat" where
  "string_end buffer limit end =
     (if end < length buffer \<and> end < limit \<and> buffer ! end \<noteq> 0
      then string_end buffer limit (end + 1)
      else end)"
  by pat_completeness auto
termination
  by (relation "measure (\<lambda>(buffer, limit, end). length buffer - end)") auto

declare string_end.simps [simp del]

text \<open>
  The \<^verbatim>\<open>readString\<close> lambda. It returns the string and the new value of the captured
  \<^verbatim>\<open>offset\<close>. The expression \<^verbatim>\<open>&buffer[offset]\<close> indexes the span at \<^verbatim>\<open>offset\<close>;
  the bytes copied are those from \<^verbatim>\<open>offset\<close> up to \<^verbatim>\<open>end\<close>.
\<close>

definition readString :: "u8 list \<Rightarrow> nat \<Rightarrow> nat \<Rightarrow> (u8 list \<times> nat) option" where
  "readString buffer offset maxLen =
     (let end = string_end buffer (offset + maxLen) offset in
      do {
        _ \<leftarrow> span_at buffer offset;
        Some (take (end - offset) (drop offset buffer), offset + maxLen)
      })"

text \<open>
  The loops \<^verbatim>\<open>for (uint8_t i = 0; i < count; ++i) if (offset + 4 <= buffer.size()) { ... }\<close>
  that fill \<open>inputPerFrame\<close>, \<open>checksumPerFrame\<close> and \<open>ackFrame\<close>: the vector built so
  far and the offset are the state.
\<close>

fun read_u32_loop :: "u8 list \<Rightarrow> nat \<Rightarrow> u32 list \<Rightarrow> nat \<Rightarrow> u32 list \<times> nat" where
  "read_u32_loop buffer 0 vec offset = (vec, offset)"
| "read_u32_loop buffer (Suc k) vec offset =
     (if offset + 4 \<le> length buffer
      then read_u32_loop buffer k (vec @ [readLittleEndian buffer offset]) (offset + 4)
      else read_u32_loop buffer k vec offset)"

text \<open>
  The \<^verbatim>\<open>switch\<close> on the message type, entered with \<^verbatim>\<open>offset = 5\<close>. \<open>None\<close> is an
  access outside the buffer.
\<close>

fun parse_payload :: "ClientMessageType \<Rightarrow> u8 list \<Rightarrow> nat \<Rightarrow> ClientMessageVariant option" where
  "parse_payload NewConnection buffer offset =
     (let messageVersion = readLittleEndian buffer offset;
          offset = offset + 2;
          teamId = readLittleEndian buffer offset;
          offset = offset + 2;
          playerIndex = readLittleEndian buffer offset;
          offset = offset + 2
      in do {
        (matchId, offset) \<leftarrow> readString buffer offset 25;
        (key, offset) \<leftarrow> readString buffer offset 45;
        (environmentId, offset) \<leftarrow> readString buffer offset 25;
        Some (Client_NewConnection
          \<lparr> messageVersion = messageVersion,
            playerData = \<lparr> teamId = teamId, ClientPlayerConfigData.playerIndex = playerIndex \<rparr>,
            matchData = \<lparr> matchId = matchId, key = key, environmentId = environmentId \<rparr> \<rparr>)
      })"
| "parse_payload Input buffer offset =
     (let startFrame = readLittleEndian buffer offset;
          offset = offset + 4;
          clientFrame = readLittleEndian buffer offset;
          offset = offset + 4
      in do {
        numFrames \<leftarrow> span_at buffer offset;
        let offset = offset + 1;
        numChecksums \<leftarrow> span_at buffer offset;
        let offset = offset + 1;
        let (inputPerFrame, offset) = read_u32_loop buffer (unat numFrames) [] offset;
        let (checksumPerFrame, offset) = read_u32_loop buffer (unat numChecksums) [] offset;
        Some (Client_Input
          \<lparr> InputPayload.startFrame = startFrame, clientFrame = clientFrame,
            InputPayload.numFrames = numFrames, numChecksums = numChecksums,
            InputPayload.inputPerFrame = inputPerFrame, checksumPerFrame = checksumPerFrame \<rparr>)
      })"
| "parse_payload PlayerInputAck buffer offset =
     do {
       numPlayers \<leftarrow> span_at buffer offset;
       let offset = offset + 1;
       let (ackFrame, offset) = read_u32_loop buffer (unat numPlayers) [] offset;
       let serverMessageSequenceNumber = readLittleEndian buffer offset;
       Some (Client_PlayerInputAck
         \<lparr> PlayerInputAckPayload.numPlayers = numPlayers, PlayerInputAckPayload.ackFrame = ackFrame,
           PlayerInputAckPayload.serverMessageSequenceNumber = serverMessageSequenceNumber \<rparr>)
     }"
| "parse_payload MatchResult buffer offset =
     do {
       numPlayers \<leftarrow> span_at buffer offset;
       let offset = offset + 1;
       let lastFrameChecksum = readLittleEndian buffer offset;
       let offset = offset + 4;
       winningTeamIndex \<leftarrow> span_at buffer offset;
       Some (Client_MatchResult
         \<lparr> MatchResultPayload.numPlayers = numPlayers, lastFrameChecksum = lastFrameChecksum,
           winningTeamIndex = winningTeamIndex \<rparr>)
     }"
| "parse_payload QualityData buffer offset =
     Some (Client_QualityData
       \<lparr> QualityDataPayload.serverMessageSequenceNumber = readLittleEndian buffer offset \<rparr>)"
| "parse_payload Disconnecting buffer offset =
     do {
       reason \<leftarrow> span_at buffer offset;
       Some (Client_Disconnecting \<lparr> DisconnectingPayload.reason = reason \<rparr>)
     }"
| "parse_payload PlayerDisconnectedAck buffer offset =
     do {
       i \<leftarrow> span_at buffer offset;
       Some (Client_PlayerDisconnectedAck
         \<lparr> PlayerDisconnectedAckPayload.playerDisconnectedArrayIndex = i \<rparr>)
     }"
| "parse_payload ReadyToStartMatch buffer offset =
     do {
       ready \<leftarrow> span_at buffer offset;
       Some (Client_ReadyToStartMatch \<lparr> ready = ready \<rparr>)
     }"

text \<open>
  The result of \<open>parseClientMessage\<close>: \<open>Nullopt\<close> is \<^verbatim>\<open>std::nullopt\<close>, \<open>Message\<close> a
  returned message, and \<open>OutOfBounds\<close> says that the call indexed the span outside its
  bounds, where C++ leaves the behaviour undefined.
\<close>

datatype parse_result =
    OutOfBounds
  | Nullopt
  | Message ClientMessageComplete

definition parseClientMessage :: "u8 list \<Rightarrow> parse_result" where
  "parseClientMessage buffer =
     (let HEADER_SIZE = 5 in
      if length buffer < HEADER_SIZE then Nullopt
      else
        let offset = 0;
            type_byte = buffer ! offset;
            offset = offset + 1;
            seq = readLittleEndian buffer offset;
            offset = offset + 4
        in case ClientMessageType_of type_byte of
             None \<Rightarrow> Nullopt
           | Some t \<Rightarrow>
               (case parse_payload t buffer offset of
                  None \<Rightarrow> OutOfBounds
                | Some p \<Rightarrow>
                    Message \<lparr> header = \<lparr> ClientHeader.type = t, ClientHeader.sequence = seq \<rparr>,
                              payload = p \<rparr>))"

section \<open>Wire codec: serializeServerMessage (serialization.cpp)\<close>

subsection \<open>Single-precision arithmetic\<close>

text \<open>
  \<open>pow2 k\<close> is \<open>2\<close> to the power \<open>k\<close> for an integer \<open>k\<close>, and \<open>floor_log2 y\<close> is, for a
  positive \<open>y\<close>, the exponent \<open>e\<close> with \<open>2^e \<le> y < 2^(e+1)\<close>: it is the difference of
  the bit lengths of numerator and denominator, or one less.
\<close>

definition pow2 :: "int \<Rightarrow> rat" where
  "pow2 k = (if 0 \<le> k then 2 ^ nat k else 1 / 2 ^ nat (- k))"

definition floor_log2 :: "rat \<Rightarrow> int" where
  "floor_log2 y =
     (let (p, q) = quotient_of y;
          c = bitlen p - bitlen q
      in if pow2 c \<le> y then c else c - 1)"

text \<open>Rounding to the nearest integer, a tie going to the even one.\<close>

definition round_half_even :: "rat \<Rightarrow> int" where
  "round_half_even y =
     (let f = \<lfloor>y\<rfloor>; d = y - of_int f
      in if d < 1 / 2 then f
         else if 1 / 2 < d then f + 1
         else if even f then f else f + 1)"

text \<open>
  The binary32 value nearest to a rational, ties to even (the default rounding mode):
  24 significant bits, the least exponent \<open>-126\<close> (below it the spacing stays
  \<open>2^-149\<close>), and an infinity when the rounded magnitude reaches \<open>2^128\<close>.
\<close>

definition round_to_float :: "rat \<Rightarrow> float" where
  "round_to_float x =
     (if x = 0 then Finite 0
      else
        let e = floor_log2 \<bar>x\<bar>;
            q = pow2 (max e (- 126) - 23);
            r = of_int (round_half_even (x / q)) * q
        in if pow2 128 \<le> \<bar>r\<bar> then (if 0 < x then PlusInfinity else MinusInfinity)
           else Finite r)"

text \<open>
  The product of two \<^verbatim>\<open>float\<close> values, evaluated in single precision
  (\<^verbatim>\<open>FLT_EVAL_METHOD\<close> 0): the exact product rounded once.
\<close>

fun float_mul :: "float \<Rightarrow> float \<Rightarrow> float" where
  "float_mul NaN y = NaN"
| "float_mul x NaN = NaN"
| "float_mul (Finite a) (Finite b) = round_to_float (a * b)"
| "float_mul (Finite a) PlusInfinity =
     (if a = 0 then NaN else if 0 < a then PlusInfinity else MinusInfinity)"
| "float_mul (Finite a) MinusInfinity =
     (if a = 0 then NaN else if 0 < a then MinusInfinity else PlusInfinity)"
| "float_mul PlusInfinity (Finite b) =
     (if b = 0 then NaN else if 0 < b then PlusInfinity else MinusInfinity)"
| "float_mul MinusInfinity (Finite b) =
     (if b = 0 then NaN else if 0 < b then MinusInfinity else PlusInfinity)"
| "float_mul PlusInfinity PlusInfinity = PlusInfinity"
| "float_mul PlusInfinity MinusInfinity = MinusInfinity"
| "float_mul MinusInfinity PlusInfinity = MinusInfinity"
| "float_mul MinusInfinity MinusInfinity = PlusInfinity"

text \<open>The conversion of an \<^verbatim>\<open>int\<close> operand to \<^verbatim>\<open>float\<close>, as in \<^verbatim>\<open>p.rift * 100\<close>.\<close>

definition int_to_float :: "int \<Rightarrow> float" where
  "int_to_float k = round_to_float (of_int k)"

text \<open>
  \<^verbatim>\<open>static_cast<int16_t>(x)\<close> of a \<^verbatim>\<open>float\<close> drops the fractional part (it rounds toward
  zero). The behaviour is undefined, here \<open>None\<close>, when the truncated value does not fit
  \<^verbatim>\<open>int16_t\<close> and when \<open>x\<close> is an infinity or a NaN.
\<close>

definition truncate_toward_zero :: "rat \<Rightarrow> int" where
  "truncate_toward_zero x = (if 0 \<le> x then \<lfloor>x\<rfloor> else \<lceil>x\<rceil>)"

definition static_cast_int16 :: "float \<Rightarrow> i16 option" where
  "static_cast_int16 x =
     (case x of
        Finite r \<Rightarrow>
          let t = truncate_toward_zero r
          in if - 32768 \<le> t \<and> t \<le> 32767 then Some (word_of_int t) else None
      | _ \<Rightarrow> None)"

subsection \<open>Integer arithmetic of the size computation\<close>

text \<open>
  \<open>int_mul\<close> is the product of two \<^verbatim>\<open>int\<close> values; a product outside the 32-bit range
  is a signed overflow, undefined in C++ and \<open>None\<close> here. A 64-bit \<^verbatim>\<open>size_t\<close> value
  is the integer it denotes, from 0 to \<open>2^64 - 1\<close>, and \<open>size_add sz x\<close> is
  \<^verbatim>\<open>size += x\<close> for an \<^verbatim>\<open>int\<close> \<open>x\<close>: the \<^verbatim>\<open>int\<close> is converted to \<^verbatim>\<open>size_t\<close> and the sum
  wraps around at \<open>2^64 = 18446744073709551616\<close>. \<open>size_to_int n\<close> is
  \<^verbatim>\<open>static_cast<int>(v.size())\<close>.
\<close>

definition int_mul :: "int \<Rightarrow> int \<Rightarrow> int option" where
  "int_mul a b =
     (if - 2147483648 \<le> a * b \<and> a * b \<le> 2147483647 then Some (a * b) else None)"

definition size_add :: "int \<Rightarrow> int \<Rightarrow> int" where
  "size_add sz x = (sz + x) mod 18446744073709551616"

definition size_to_int :: "nat \<Rightarrow> int" where
  "size_to_int n = sint (word_of_nat n :: 32 word)"

definition PlayerConfigValues :: "u16 list" where
  "PlayerConfigValues = [0, 257, 512, 769]"

text \<open>
  The first \<^verbatim>\<open>std::visit\<close>: the payload's share is added to the source's \<^verbatim>\<open>size\<close>,
  here \<open>sz\<close>. \<open>None\<close> is a signed overflow of \<^verbatim>\<open>maxPlayers * 4\<close> or
  \<^verbatim>\<open>maxPlayers * 2\<close>.
\<close>

fun payload_size :: "ServerMessageVariant \<Rightarrow> i32 \<Rightarrow> int \<Rightarrow> int option" where
  "payload_size (Server_NewConnectionReply p) maxPlayers sz = Some (size_add sz 9)"
| "payload_size (Server_InputAck p) maxPlayers sz = Some (size_add sz 4)"
| "payload_size (Server_RequestQualityData p) maxPlayers sz = Some (size_add sz 4)"
| "payload_size (Server_PlayerInput p) maxPlayers sz =
     do {
       let sz = size_add sz 1;
       m \<leftarrow> int_mul (sint maxPlayers) 4;
       let sz = size_add sz m;
       let sz = size_add sz (sint maxPlayers);
       let sz = size_add sz (2 + 2);
       let sz = size_add sz (2 + 2 + 2);
       let sz = size_add sz 4;
       Some (fold (\<lambda>i sz. size_add sz (int (unat (PlayerInputPayload.numFrames p ! i)) * 4))
               [0..<nat (min (sint maxPlayers)
                             (size_to_int (length (PlayerInputPayload.numFrames p))))]
               sz)
     }"
| "payload_size (Server_PlayersStatus p) maxPlayers sz =
     do {
       let sz = size_add sz 1;
       m \<leftarrow> int_mul (sint maxPlayers) 2;
       Some (size_add sz m)
     }"
| "payload_size (Server_Kick p) maxPlayers sz = Some (size_add sz (2 + 4))"
| "payload_size (Server_ChecksumAck p) maxPlayers sz = Some (size_add sz 4)"
| "payload_size (Server_PlayersConfigurationData p) maxPlayers sz =
     do {
       let sz = size_add sz 1;
       m \<leftarrow> int_mul (sint maxPlayers) 4;
       Some (size_add sz m)
     }"
| "payload_size (Server_PlayerDisconnected p) maxPlayers sz = Some (size_add sz (1 + 1 + 4 + 2))"
| "payload_size (Server_ChangePort p) maxPlayers sz = Some (size_add sz 2)"
| "payload_size Server_Monostate maxPlayers sz = Some sz"

subsection \<open>Writing into the buffer\<close>

text \<open>
  \<^verbatim>\<open>buffer[i] = v\<close> on a \<^verbatim>\<open>std::vector\<close> is not checked by the library: a write at an
  index that is not below \<^verbatim>\<open>buffer.size()\<close> is undefined, here \<open>None\<close>.
\<close>

definition store :: "u8 list \<Rightarrow> nat \<Rightarrow> u8 \<Rightarrow> u8 list option" where
  "store buffer i v = (if i < length buffer then Some (buffer[i := v]) else None)"

text \<open>A loop over \<open>xs\<close> whose body may fail; the first failure ends it.\<close>

fun for_each :: "('a \<Rightarrow> 's \<Rightarrow> 's option) \<Rightarrow> 'a list \<Rightarrow> 's \<Rightarrow> 's option" where
  "for_each body [] s = Some s"
| "for_each body (x # xs) s =
     (case body x s of None \<Rightarrow> None | Some s' \<Rightarrow> for_each body xs s')"

text \<open>
  \<^verbatim>\<open>writeLittleEndian<T>\<close>: byte \<open>i\<close> of the value goes to \<^verbatim>\<open>buffer[offset + i]\<close>. For a
  signed \<open>T\<close> the C++ shift works on the sign-extended \<^verbatim>\<open>int\<close>, and the bytes kept are
  those of the two's complement word, as here.
\<close>

definition writeLittleEndian :: "u8 list \<Rightarrow> nat \<Rightarrow> 'a::len word \<Rightarrow> u8 list option" where
  "writeLittleEndian buffer offset val =
     for_each (\<lambda>i buf. store buf (offset + i) (ucast (drop_bit (i * 8) val AND 0xFF)))
              [0..<LENGTH('a) div 8] buffer"

text \<open>
  The buffer and the write offset are threaded through the writes.
  \<open>put_u8 v\<close> is \<^verbatim>\<open>buffer[offset++] = v\<close>; \<open>put_le v\<close> is
  \<^verbatim>\<open>writeLittleEndian<T>(buffer, offset, v); offset += sizeof(T)\<close>.
\<close>

type_synonym writer = "u8 list \<times> nat"

definition put_u8 :: "u8 \<Rightarrow> writer \<Rightarrow> writer option" where
  "put_u8 v = (\<lambda>(buffer, offset).
     do { buffer \<leftarrow> store buffer offset v; Some (buffer, offset + 1) })"

definition put_le :: "'a::len word \<Rightarrow> writer \<Rightarrow> writer option" where
  "put_le v = (\<lambda>(buffer, offset).
     do { buffer \<leftarrow> writeLittleEndian buffer offset v;
          Some (buffer, offset + LENGTH('a) div 8) })"

text \<open>
  \<^verbatim>\<open>(i < static_cast<int>(v.size())) ? v[i] : d\<close> for a loop counter \<open>i\<close> that is not
  negative.
\<close>

definition padded :: "'a list \<Rightarrow> 'a \<Rightarrow> nat \<Rightarrow> 'a" where
  "padded v d i = (if int i < size_to_int (length v) then v ! i else d)"

text \<open>
  The second \<^verbatim>\<open>std::visit\<close>: the payload is written field by field. The loops
  \<^verbatim>\<open>for (int i = 0; i < maxPlayers; ++i)\<close> run over \<open>[0..<nat (sint maxPlayers)]\<close>.
  \<open>None\<close> is a write outside the buffer or an undefined \<^verbatim>\<open>float\<close> conversion.
\<close>

fun write_payload :: "ServerMessageVariant \<Rightarrow> i32 \<Rightarrow> writer \<Rightarrow> writer option" where
  "write_payload (Server_NewConnectionReply p) maxPlayers w =
     do {
       w \<leftarrow> put_u8 (success p) w;
       w \<leftarrow> put_u8 (matchNumPlayers p) w;
       w \<leftarrow> put_u8 (NewConnectionReplyPayload.playerIndex p) w;
       w \<leftarrow> put_le (matchDurationInFrames p) w;
       w \<leftarrow> put_u8 0 w;
       put_u8 (isValidationServerDebugMode p) w
     }"
| "write_payload (Server_InputAck p) maxPlayers w = put_le (InputAckPayload.ackFrame p) w"
| "write_payload (Server_PlayerInput p) maxPlayers w =
     do {
       w \<leftarrow> put_u8 (PlayerInputPayload.numPlayers p) w;
       w \<leftarrow> for_each (\<lambda>i w.
              let sf = padded (PlayerInputPayload.startFrame p) 0 i
              in put_le sf w) [0..<nat (sint maxPlayers)] w;
       w \<leftarrow> for_each (\<lambda>i w.
              let nf = padded (PlayerInputPayload.numFrames p) 0 i
              in put_u8 nf w) [0..<nat (sint maxPlayers)] w;
       w \<leftarrow> put_le (numPredictedOverrides p) w;
       w \<leftarrow> put_le (numZeroedOverrides p) w;
       w \<leftarrow> put_le (PlayerInputPayload.ping p) w;
       w \<leftarrow> put_le (PlayerInputPayload.packetsLossPercent p) w;
       riftInt \<leftarrow> static_cast_int16 (float_mul (rift p) (int_to_float 100));
       w \<leftarrow> put_le riftInt w;
       w \<leftarrow> put_le (checksumAckFrame p) w;
       for_each (\<lambda>pl w.
         let arr = padded (PlayerInputPayload.inputPerFrame p) [] pl;
             numFrames = padded (PlayerInputPayload.numFrames p) 0 pl
         in for_each (\<lambda>f w.
              let v = (if f < length arr then arr ! f else 0)
              in put_le v w) [0..<unat numFrames] w) [0..<nat (sint maxPlayers)] w
     }"
| "write_payload (Server_RequestQualityData p) maxPlayers w =
     do {
       w \<leftarrow> put_le (RequestQualityDataPayload.ping p) w;
       put_le (RequestQualityDataPayload.packetsLossPercent p) w
     }"
| "write_payload (Server_PlayersStatus p) maxPlayers w =
     do {
       w \<leftarrow> put_u8 (PlayersStatusPayload.numPlayers p) w;
       for_each (\<lambda>i w.
         let avg = (if int i < size_to_int (length (status p))
                    then averagePing (status p ! i) else 0)
         in put_le avg w) [0..<nat (sint maxPlayers)] w
     }"
| "write_payload (Server_Kick p) maxPlayers w =
     do {
       w \<leftarrow> put_le (KickPayload.reason p) w;
       put_le (param1 p) w
     }"
| "write_payload (Server_ChecksumAck p) maxPlayers w = put_le (ChecksumAckPayload.ackFrame p) w"
| "write_payload (Server_PlayersConfigurationData p) maxPlayers w =
     do {
       w \<leftarrow> put_u8 (PlayersConfigurationDataPayload.numPlayers p) w;
       for_each (\<lambda>i w.
         let val = PlayerConfigValues ! (i mod length PlayerConfigValues)
         in put_le val w) [0..<nat (sint maxPlayers)] w
     }"
| "write_payload (Server_PlayerDisconnected p) maxPlayers w =
     do {
       w \<leftarrow> put_u8 (PlayerDisconnectedPayload.playerIndex p) w;
       w \<leftarrow> put_u8 (shouldAITakeControl p) w;
       w \<leftarrow> put_le (AITakeControlFrame p) w;
       put_le (PlayerDisconnectedPayload.playerDisconnectedArrayIndex p) w
     }"
| "write_payload (Server_ChangePort p) maxPlayers w = put_le (port p) w"
| "write_payload Server_Monostate maxPlayers w = Some w"

subsection \<open>serializeServerMessage\<close>

text \<open>
  The result of a call: \<open>Buffer\<close> is the returned vector; \<open>LengthError\<close> is the
  \<^verbatim>\<open>std::length_error\<close> that \<^verbatim>\<open>std::vector<uint8_t> buffer(size)\<close> throws for a size
  above \<open>max_size\<close> (\<open>2^63 - 1\<close> with a 64-bit \<^verbatim>\<open>size_t\<close>); \<open>Undefined\<close> says that the
  call overflowed an \<^verbatim>\<open>int\<close>, wrote outside the vector or converted a \<^verbatim>\<open>float\<close> outside
  the range of \<^verbatim>\<open>int16_t\<close>, where C++ leaves the behaviour undefined. Running out of
  memory is not modelled.
\<close>

datatype serialize_result =
    Undefined
  | LengthError
  | Buffer "u8 list"

definition max_size :: int where
  "max_size = 9223372036854775807"

text \<open>
  The parameters \<open>hdr\<close> and \<open>pld\<close> are the source's \<^verbatim>\<open>header\<close> and \<^verbatim>\<open>payload\<close>, and
  \<open>sz\<close> is its \<^verbatim>\<open>size\<close>, which starts at 5. The vector \<^verbatim>\<open>buffer(size)\<close> starts filled
  with zero bytes.
\<close>

definition serializeServerMessage ::
  "ServerHeader \<Rightarrow> ServerMessageVariant \<Rightarrow> i32 \<Rightarrow> serialize_result" where
  "serializeServerMessage hdr pld maxPlayers =
     (case payload_size pld maxPlayers 5 of
        None \<Rightarrow> Undefined
      | Some sz \<Rightarrow>
          if max_size < sz then LengthError
          else
            (case do {
                    let buffer = replicate (nat sz) 0;
                    let w = (buffer, 0);
                    w \<leftarrow> put_u8 (ServerMessageType_value (ServerHeader.type hdr)) w;
                    w \<leftarrow> put_le (ServerHeader.sequence hdr) w;
                    write_payload pld maxPlayers w
                  } of
               None \<Rightarrow> Undefined
             | Some (buffer, offset) \<Rightarrow>
                 Buffer (if offset < length buffer then resize buffer offset else buffer)))"

subsection \<open>The written bytes as lists\<close>

text \<open>
  The bytes of a word in little-endian order, \<open>LENGTH('a) div 8\<close> of them: the layout
  that \<open>writeLittleEndian\<close> produces, written as a list.
\<close>

definition le_bytes :: "'a::len word \<Rightarrow> u8 list" where
  "le_bytes v = map (\<lambda>i. ucast (drop_bit (i * 8) v AND 0xFF)) [0..<LENGTH('a) div 8]"

text \<open>
  Writing the bytes \<open>bs\<close> at the offset and moving the offset past them, and the test that
  \<open>k\<close> more bytes fit the buffer.
\<close>

definition emit :: "u8 list \<Rightarrow> writer \<Rightarrow> writer" where
  "emit bs = (\<lambda>(buffer, offset).
     (take offset buffer @ bs @ drop (offset + length bs) buffer, offset + length bs))"

definition room :: "nat \<Rightarrow> writer \<Rightarrow> bool" where
  "room k = (\<lambda>(buffer, offset). offset + k \<le> length buffer)"

text \<open>
  The \<open>PlayerInput\<close> payload as the list of its fields, in the order in which
  \<open>write_payload\<close> writes them, for \<open>n\<close> players and the 16-bit rift value \<open>riftInt\<close>:
  \<open>numPlayers\<close>, then \<open>n\<close> start frames and \<open>n\<close> frame counts (each array padded with
  0), the two override counters, \<open>ping\<close>, \<open>packetsLossPercent\<close>, the rift,
  \<open>checksumAckFrame\<close>, and for each of the \<open>n\<close> players as many 32-bit inputs as its
  frame count says.
\<close>

definition input_at :: "u32 list \<Rightarrow> nat \<Rightarrow> u32" where
  "input_at arr f = (if f < length arr then arr ! f else 0)"

definition PlayerInput_bytes :: "PlayerInputPayload \<Rightarrow> nat \<Rightarrow> i16 \<Rightarrow> u8 list" where
  "PlayerInput_bytes p n riftInt =
     [PlayerInputPayload.numPlayers p]
     @ concat (map (\<lambda>i. le_bytes (padded (PlayerInputPayload.startFrame p) 0 i)) [0..<n])
     @ map (\<lambda>i. padded (PlayerInputPayload.numFrames p) 0 i) [0..<n]
     @ le_bytes (numPredictedOverrides p)
     @ le_bytes (numZeroedOverrides p)
     @ le_bytes (PlayerInputPayload.ping p)
     @ le_bytes (PlayerInputPayload.packetsLossPercent p)
     @ le_bytes riftInt
     @ le_bytes (checksumAckFrame p)
     @ concat (map (\<lambda>pl.
         concat (map (\<lambda>f. le_bytes (input_at (padded (PlayerInputPayload.inputPerFrame p) [] pl) f))
                     [0..<unat (padded (PlayerInputPayload.numFrames p) 0 pl)]))
         [0..<n])"

section \<open>Codec: refinement of the list-level format\<close>

declare zs_encode.simps(2) [simp del]

lemma group_split:
  assumes "bitIx < 8" "inPos < length input"
  shows "take (8 - bitIx) (drop inPos input)
           = input ! inPos # take (8 - (bitIx + 1)) (drop (inPos + 1) input)"
proof -
  have "8 - bitIx = Suc (8 - (bitIx + 1))" using assms by simp
  moreover have "drop inPos input = input ! inPos # drop (inPos + 1) input"
    using assms by (simp add: Cons_nth_drop_Suc)
  ultimately show ?thesis by simp
qed

lemma group_done:
  assumes "\<not> (bitIx < 8 \<and> inPos < length input)"
  shows "take (8 - bitIx) (drop inPos input) = []"
  using assms by auto

lemma take_Suc_update: "n < length xs \<Longrightarrow> take (Suc n) (xs[n := v]) = take n xs @ [v]"
  by (simp add: take_Suc_conv_app_nth)

lemma compress_group_spec:
  assumes "length outBuf = 1024" and "outPos \<le> 1024"
  shows "compress_group input bitIx maskB inPos outPos outBuf =
     (let g = take (8 - bitIx) (drop inPos input); lits = filter (\<lambda>b. b \<noteq> 0) g in
      if outPos + length lits \<le> 1024 then
        Inr (maskB OR group_mask bitIx g, inPos + length g, outPos + length lits,
             take outPos outBuf @ lits @ drop (outPos + length lits) outBuf)
      else Inl CompressOverflow)"
  using assms
proof (induction input bitIx maskB inPos outPos outBuf rule: compress_group.induct)
  case (1 input bitIx maskB inPos outPos outBuf)
  show ?case
  proof (cases "bitIx < 8 \<and> inPos < length input")
    case False
    from group_done [OF False] have g: "take (8 - bitIx) (drop inPos input) = []" .
    have "compress_group input bitIx maskB inPos outPos outBuf = Inr (maskB, inPos, outPos, outBuf)"
      using False by (subst compress_group.simps) auto
    then show ?thesis
      using "1.prems" by (simp add: g)
  next
    case True
    then have b: "bitIx < 8" and i: "inPos < length input" by simp_all
    note g = group_split [OF b i]
    show ?thesis
    proof (cases "input ! inPos \<noteq> 0")
      case nz: True
      show ?thesis
      proof (cases "outPos \<ge> 1024")
        case full: True
        have "compress_group input bitIx maskB inPos outPos outBuf = Inl CompressOverflow"
          using True nz full by (subst compress_group.simps) (simp add: Let_def)
        then show ?thesis
          using full nz by (simp add: g Let_def)
      next
        case room: False
        have len: "length (outBuf[outPos := input ! inPos]) = 1024"
          using "1.prems" by simp
        have le: "outPos + 1 \<le> 1024" using room by simp
        have unf: "compress_group input bitIx maskB inPos outPos outBuf =
            compress_group input (bitIx + 1) (maskB OR push_bit bitIx 1) (inPos + 1) (outPos + 1)
              (outBuf[outPos := input ! inPos])"
          using True nz room by (subst compress_group.simps) (simp add: Let_def)
        have tk: "take (Suc outPos) (outBuf[outPos := input ! inPos]) = take outPos outBuf @ [input ! inPos]"
          using room "1.prems" by (simp add: take_Suc_update)
        show ?thesis
          unfolding unf "1.IH"(1) [OF True refl nz refl room len le]
          using nz by (simp add: g Let_def tk ac_simps del: take_update_cancel)
      qed
    next
      case z: False
      have unf: "compress_group input bitIx maskB inPos outPos outBuf =
            compress_group input (bitIx + 1) maskB (inPos + 1) outPos outBuf"
        using True z by (subst compress_group.simps) (simp add: Let_def)
      show ?thesis
        unfolding unf "1.IH"(2) [OF True refl z "1.prems"]
        using z by (simp add: g Let_def)
    qed
  qed
qed


lemma zs_encode_drop:
  assumes "inPos < length input"
  shows "zs_encode (drop inPos input) =
           group_mask 0 (take 8 (drop inPos input))
             # filter (\<lambda>b. b \<noteq> 0) (take 8 (drop inPos input))
             @ zs_encode (drop (inPos + length (take 8 (drop inPos input))) input)"
proof -
  from assms obtain v vs where d: "drop inPos input = v # vs"
    by (cases "drop inPos input") auto
  have "drop (inPos + length (take 8 (drop inPos input))) input = drop 8 (drop inPos input)"
  proof (cases "8 \<le> length input - inPos")
    case True
    then show ?thesis by (simp add: min_def add.commute)
  next
    case False
    then show ?thesis by (simp add: min_def)
  qed
  then show ?thesis
    unfolding d by (simp add: zs_encode.simps(2))
qed

lemma compress_loop_spec:
  assumes "length outBuf = 1024" and "outPos \<le> 1024"
  shows "case compress_loop input inPos outPos outBuf of
           Inl e \<Rightarrow> e = CompressOverflow \<and> 1024 < outPos + length (zs_encode (drop inPos input))
         | Inr (p, ob) \<Rightarrow>
             p = outPos + length (zs_encode (drop inPos input)) \<and> p \<le> 1024 \<and>
             length ob = 1024 \<and> take p ob = take outPos outBuf @ zs_encode (drop inPos input)"
  using assms
proof (induction input inPos outPos outBuf rule: compress_loop.induct)
  case (1 input inPos outPos outBuf)
  show ?case
  proof (cases "inPos < length input")
    case False
    then have "compress_loop input inPos outPos outBuf = Inr (outPos, outBuf)"
      by (subst compress_loop.simps) simp
    then show ?thesis using False "1.prems" by simp
  next
    case lt: True
    define g where "g = take 8 (drop inPos input)"
    define lits where "lits = filter (\<lambda>b. b \<noteq> 0) g"
    have enc: "zs_encode (drop inPos input) =
        group_mask 0 g # lits @ zs_encode (drop (inPos + length g) input)"
      unfolding g_def lits_def by (rule zs_encode_drop [OF lt])
    show ?thesis
    proof (cases "outPos \<ge> 1024")
      case True
      then have "compress_loop input inPos outPos outBuf = Inl CompressOverflow"
        using lt by (subst compress_loop.simps) simp
      then show ?thesis using True by (simp add: enc)
    next
      case room: False
      then have le: "outPos + 1 \<le> 1024" by simp
      have grp: "compress_group input 0 0 inPos (outPos + 1) outBuf =
          (if Suc (outPos + length lits) \<le> 1024 then
             Inr (group_mask 0 g, inPos + length g, Suc (outPos + length lits),
                  take (Suc outPos) outBuf @ lits @ drop (Suc (outPos + length lits)) outBuf)
           else Inl CompressOverflow)"
        using compress_group_spec [OF "1.prems"(1) le, of input 0 0 inPos]
        by (simp add: Let_def g_def lits_def)
      show ?thesis
      proof (cases "Suc (outPos + length lits) \<le> 1024")
        case False
        then have "compress_loop input inPos outPos outBuf = Inl CompressOverflow"
          using lt room grp by (subst compress_loop.simps) simp
        then show ?thesis using False by (simp add: enc)
      next
        case fits: True
        define ob where "ob = take (Suc outPos) outBuf @ lits @ drop (Suc (outPos + length lits)) outBuf"
        have grp': "compress_group input 0 0 inPos (outPos + 1) outBuf =
            Inr (group_mask 0 g, inPos + length g, Suc (outPos + length lits), ob)"
          using grp fits by (simp add: ob_def)
        have unf: "compress_loop input inPos outPos outBuf =
            compress_loop input (inPos + length g) (Suc (outPos + length lits))
              (ob[outPos := group_mask 0 g])"
          using lt room grp' by (subst compress_loop.simps) simp
        have len: "length (ob[outPos := group_mask 0 g]) = 1024"
          using "1.prems" fits by (simp add: ob_def)
        have tk: "take (Suc (outPos + length lits)) (ob[outPos := group_mask 0 g])
                    = take outPos outBuf @ group_mask 0 g # lits"
          using "1.prems" room fits
          by (simp add: ob_def list_update_append take_Suc_conv_app_nth)
        note IH = "1.IH" [OF lt room refl grp' refl refl refl len fits]
        show ?thesis
          unfolding unf using IH
          by (auto simp: enc tk split: sum.splits)
      qed
    qed
  qed
qed

lemma compressPacket_spec:
  "compressPacket input =
     (if length (zs_encode input) \<le> 1024 then Inr (zs_encode input) else Inl CompressOverflow)"
proof (cases "input = []")
  case True
  then show ?thesis by (simp add: compressPacket_def)
next
  case False
  have "length (replicate 1024 (0::u8)) = 1024" by simp
  from compress_loop_spec [OF this, where outPos = 0 and input = input and inPos = 0] False
  show ?thesis
    by (auto simp: compressPacket_def resize_def split: sum.splits)
qed


lemma length_zs_encode:
  "length (zs_encode xs) = (length xs + 7) div 8 + length (filter (\<lambda>b. b \<noteq> 0) xs)"
proof (induction xs rule: zs_encode.induct)
  case 1
  show ?case by simp
next
  case (2 v vs)
  let ?xs = "v # vs"
  have f: "length (filter (\<lambda>b. b \<noteq> 0) (take 8 ?xs)) + length (filter (\<lambda>b. b \<noteq> 0) (drop 8 ?xs))
            = length (filter (\<lambda>b. b \<noteq> 0) ?xs)"
    by (metis append_take_drop_id filter_append length_append)
  have a: "Suc ((length (drop 8 ?xs) + 7) div 8) = (length ?xs + 7) div 8"
    by (cases "8 \<le> length ?xs") (simp_all add: Suc_diff_le)
  have "length (zs_encode ?xs) =
      Suc (length (filter (\<lambda>b. b \<noteq> 0) (take 8 ?xs)) + length (zs_encode (drop 8 ?xs)))"
    by (simp add: zs_encode.simps(2))
  also have "\<dots> = Suc ((length (drop 8 ?xs) + 7) div 8)
      + (length (filter (\<lambda>b. b \<noteq> 0) (take 8 ?xs)) + length (filter (\<lambda>b. b \<noteq> 0) (drop 8 ?xs)))"
    using "2.IH" by simp
  also have "\<dots> = (length ?xs + 7) div 8 + length (filter (\<lambda>b. b \<noteq> 0) ?xs)"
    unfolding a f ..
  finally show ?case .
qed

lemma test_bit_conv: "i < 8 \<Longrightarrow> ((m :: u8) AND push_bit i 1 \<noteq> 0) = bit m i"
  by (simp add: push_bit_of_1 and_exp_eq_0_iff_not_bit)

lemma bit_single: "bit (push_bit i (1 :: u8)) n \<longleftrightarrow> n < 8 \<and> n = i"
  by (auto simp: push_bit_of_1 bit_exp_iff)

lemma bit_group_mask:
  "bit (group_mask i g) n \<longleftrightarrow> n < 8 \<and> i \<le> n \<and> n - i < length g \<and> g ! (n - i) \<noteq> 0"
proof (induction g arbitrary: i)
  case Nil
  show ?case by simp
next
  case (Cons v g)
  have unf: "bit (group_mask i (v # g)) n \<longleftrightarrow>
      (v \<noteq> 0 \<and> n < 8 \<and> n = i) \<or> (n < 8 \<and> Suc i \<le> n \<and> n - Suc i < length g \<and> g ! (n - Suc i) \<noteq> 0)"
    using bit_single [of i n] by (simp add: bit_or_iff Cons.IH del: push_bit_of_1)
  show ?case
  proof (cases "n = i")
    case True
    then show ?thesis unfolding unf by auto
  next
    case False
    then have "i \<le> n \<Longrightarrow> n - i = Suc (n - Suc i)" by simp
    with False show ?thesis unfolding unf by (auto simp: nth_Cons split: nat.splits)
  qed
qed

lemma drop_eq_Cons_nth:
  assumes "drop k c = x # ys"
  shows "k < length c" and "c ! k = x" and "drop (Suc k) c = ys"
proof -
  show k: "k < length c" using assms by (cases "k < length c") auto
  from Cons_nth_drop_Suc [OF k] assms show "c ! k = x" and "drop (Suc k) c = ys" by auto
qed

lemma decompress_group_enc:
  assumes "length outBuf = 1024" and "writePos + length g \<le> n" and "n \<le> 1024"
    and "bitIx + length g \<le> 8"
    and "bitIx + length g = 8 \<or> writePos + length g = n"
    and "\<forall>j < length g. bit maskB (bitIx + j) \<longleftrightarrow> g ! j \<noteq> 0"
    and "drop readPos c = filter (\<lambda>b. b \<noteq> 0) g @ rest"
  shows "decompress_group c n maskB bitIx readPos writePos outBuf =
           Inr (readPos + length (filter (\<lambda>b. b \<noteq> 0) g), writePos + length g,
                take writePos outBuf @ g @ drop (writePos + length g) outBuf)"
  using assms
proof (induction g arbitrary: bitIx readPos writePos outBuf)
  case Nil
  then have "\<not> (bitIx < 8 \<and> writePos < n)" by auto
  then show ?case
    by (subst decompress_group.simps) auto
next
  case (Cons v g)
  then have b: "bitIx < 8" and w: "writePos < n" and w': "writePos < 1024" by auto
  from Cons.prems(6) have bv: "bit maskB bitIx \<longleftrightarrow> v \<noteq> 0"
    by (auto dest: spec [of _ 0])
  have bits: "\<forall>j < length g. bit maskB (bitIx + 1 + j) \<longleftrightarrow> g ! j \<noteq> 0"
    using Cons.prems(6) by (auto dest: spec [of _ "Suc j" for j])
  have stop: "bitIx + 1 + length g = 8 \<or> writePos + 1 + length g = n"
    using Cons.prems(5) by auto
  show ?case
  proof (cases "v \<noteq> 0")
    case nz: True
    with Cons.prems(7) have d: "drop readPos c = v # (filter (\<lambda>b. b \<noteq> 0) g @ rest)"
      by simp
    note r = drop_eq_Cons_nth [OF d]
    have unf: "decompress_group c n maskB bitIx readPos writePos outBuf =
        decompress_group c n maskB (bitIx + 1) (readPos + 1) (writePos + 1) (outBuf[writePos := v])"
      using b w w' nz bv r(1,2)
      by (subst decompress_group.simps) (simp add: test_bit_conv Let_def del: push_bit_of_1)
    have IH: "decompress_group c n maskB (bitIx + 1) (readPos + 1) (writePos + 1) (outBuf[writePos := v]) =
        Inr (readPos + 1 + length (filter (\<lambda>b. b \<noteq> 0) g), writePos + 1 + length g,
             take (writePos + 1) (outBuf[writePos := v]) @ g
               @ drop (writePos + 1 + length g) (outBuf[writePos := v]))"
      using Cons.prems(1-4) stop bits r(3)
      by (intro Cons.IH) auto
    show ?thesis
      unfolding unf IH using nz w' Cons.prems(1)
      by (simp add: take_Suc_update del: take_update_cancel)
  next
    case z: False
    with Cons.prems(7) have d: "drop readPos c = filter (\<lambda>b. b \<noteq> 0) g @ rest"
      by simp
    have unf: "decompress_group c n maskB bitIx readPos writePos outBuf =
        decompress_group c n maskB (bitIx + 1) readPos (writePos + 1) (outBuf[writePos := 0])"
      using b w w' z bv
      by (subst decompress_group.simps) (simp add: test_bit_conv Let_def del: push_bit_of_1)
    have IH: "decompress_group c n maskB (bitIx + 1) readPos (writePos + 1) (outBuf[writePos := 0]) =
        Inr (readPos + length (filter (\<lambda>b. b \<noteq> 0) g), writePos + 1 + length g,
             take (writePos + 1) (outBuf[writePos := 0]) @ g
               @ drop (writePos + 1 + length g) (outBuf[writePos := 0]))"
      using Cons.prems(1-4) stop bits d
      by (intro Cons.IH) auto
    show ?thesis
      unfolding unf IH using z w' Cons.prems(1)
      by (simp add: take_Suc_update del: take_update_cancel)
  qed
qed


lemma decompress_loop_enc:
  assumes "length outBuf = 1024" and "n \<le> 1024" and "writePos + length xs = n"
    and "drop readPos c = zs_encode xs"
  shows "\<exists>ob. decompress_loop c n readPos writePos outBuf = Inr ob \<and> length ob = 1024 \<and>
              take n ob = take writePos outBuf @ xs"
  using assms
proof (induction xs arbitrary: readPos writePos outBuf rule: zs_encode.induct)
  case 1
  then have "\<not> (readPos < length c \<and> writePos < n)" by simp
  then have "decompress_loop c n readPos writePos outBuf = Inr outBuf"
    by (subst decompress_loop.simps) auto
  then show ?case using "1.prems" by simp
next
  case (2 v vs)
  let ?xs = "v # vs"
  define g where "g = take 8 ?xs"
  define lits where "lits = filter (\<lambda>b. b \<noteq> 0) g"
  have d: "drop readPos c = group_mask 0 g # (lits @ zs_encode (drop 8 ?xs))"
    using "2.prems"(4) by (simp add: zs_encode.simps(2) g_def lits_def)
  note r = drop_eq_Cons_nth [OF d]
  have lg: "length g = min 8 (length ?xs)" by (simp add: g_def min.commute)
  have w: "writePos < n" using "2.prems"(3) by simp
  have grp: "decompress_group c n (group_mask 0 g) 0 (readPos + 1) writePos outBuf =
      Inr (readPos + 1 + length lits, writePos + length g,
           take writePos outBuf @ g @ drop (writePos + length g) outBuf)"
    unfolding lits_def
  proof (rule decompress_group_enc [where rest = "zs_encode (drop 8 ?xs)"])
    show "length outBuf = 1024" by fact
    show "writePos + length g \<le> n" using "2.prems"(3) lg by simp
    show "n \<le> 1024" by fact
    show "0 + length g \<le> 8" using lg by simp
    show "0 + length g = 8 \<or> writePos + length g = n"
      using "2.prems"(3) lg by (auto simp: min_def)
    show "\<forall>j<length g. bit (group_mask 0 g) (0 + j) = (g ! j \<noteq> 0)"
      using lg by (auto simp: bit_group_mask)
    show "drop (readPos + 1) c = filter (\<lambda>b. b \<noteq> 0) g @ zs_encode (drop 8 ?xs)"
      using r(3) by (simp add: lits_def)
  qed
  define ob1 where "ob1 = take writePos outBuf @ g @ drop (writePos + length g) outBuf"
  have unf: "decompress_loop c n readPos writePos outBuf =
      decompress_loop c n (readPos + 1 + length lits) (writePos + length g) ob1"
    using r(1,2) w grp by (subst decompress_loop.simps) (simp add: ob1_def)
  have len1: "length ob1 = 1024"
    using "2.prems"(1-3) lg by (auto simp: ob1_def min_def)
  have tk1: "take (writePos + length g) ob1 = take writePos outBuf @ g"
    using "2.prems"(1-3) by (simp add: ob1_def)
  have w2: "writePos + length g + length (drop 8 ?xs) = n"
    using "2.prems"(3) lg by (auto simp: min_def)
  have d2: "drop (readPos + 1 + length lits) c = zs_encode (drop 8 ?xs)"
    using r(3) by (metis add.commute append_eq_conv_conj drop_drop Suc_eq_plus1)
  from "2.IH" [OF len1 "2.prems"(2) w2 d2]
  obtain ob where ob: "decompress_loop c n (readPos + 1 + length lits) (writePos + length g) ob1 = Inr ob"
    "length ob = 1024" "take n ob = take (writePos + length g) ob1 @ drop 8 ?xs"
    by blast
  have "take writePos outBuf @ g @ drop 8 ?xs = take writePos outBuf @ ?xs"
    unfolding g_def by (simp only: append_take_drop_id)
  with ob show ?case
    unfolding unf tk1 by simp
qed

lemma decompress_zs_encode:
  assumes "length b \<le> 1024"
  shows "decompressPacket (zs_encode b) (length b) = Inr b"
proof -
  have "\<exists>ob. decompress_loop (zs_encode b) (length b) 0 0 (replicate 1024 0) = Inr ob \<and>
          length ob = 1024 \<and> take (length b) ob = take 0 (replicate 1024 0) @ b"
    by (rule decompress_loop_enc) (use assms in simp_all)
  then show ?thesis
    using assms by (auto simp: decompressPacket_def resize_def)
qed

lemma set_bits_0 [simp]: "set_bits m i 0 = 0"
  by (simp add: set_bits_def)

lemma set_bits_Suc: "set_bits m i (Suc k) = (if bit m i then 1 else 0) + set_bits m (Suc i) k"
proof -
  have "[i..<i + Suc k] = i # [Suc i..<Suc i + k]"
    by (simp add: upt_conv_Cons)
  then show ?thesis by (simp add: set_bits_def)
qed

lemma decompress_group_count:
  assumes "n \<le> 1024" and "readPos \<le> length c"
  shows "case decompress_group c n maskB bitIx readPos writePos outBuf of
           Inl e \<Rightarrow> e = TruncatedData \<and>
             length c < readPos + set_bits maskB bitIx (min (8 - bitIx) (n - writePos))
         | Inr (r, w, ob) \<Rightarrow>
             r = readPos + set_bits maskB bitIx (min (8 - bitIx) (n - writePos)) \<and> r \<le> length c \<and>
             w = writePos + min (8 - bitIx) (n - writePos) \<and> length ob = length outBuf"
  using assms
proof (induction c n maskB bitIx readPos writePos outBuf rule: decompress_group.induct)
  case (1 c n maskB bitIx readPos writePos outBuf)
  show ?case
  proof (cases "bitIx < 8 \<and> writePos < n")
    case False
    then have k: "min (8 - bitIx) (n - writePos) = 0" by auto
    have "decompress_group c n maskB bitIx readPos writePos outBuf = Inr (readPos, writePos, outBuf)"
      using False by (subst decompress_group.simps) auto
    then show ?thesis using "1.prems" by (simp add: k)
  next
    case True
    then have b: "bitIx < 8" and w: "writePos < n" and w': "\<not> 1024 \<le> writePos"
      using "1.prems" by auto
    have k: "min (8 - bitIx) (n - writePos) = Suc (min (8 - (bitIx + 1)) (n - (writePos + 1)))"
      using b w by (auto simp: min_def)
    show ?thesis
    proof (cases "bit maskB bitIx")
      case set: True
      then have t: "maskB AND push_bit bitIx 1 \<noteq> 0"
        using b by (simp add: test_bit_conv del: push_bit_of_1)
      show ?thesis
      proof (cases "readPos \<ge> length c")
        case True
        have "decompress_group c n maskB bitIx readPos writePos outBuf = Inl TruncatedData"
          using b w t True by (subst decompress_group.simps) (simp add: Let_def del: push_bit_of_1)
        then show ?thesis using True set by (simp add: k set_bits_Suc)
      next
        case False
        then have r: "readPos + 1 \<le> length c" by simp
        have unf: "decompress_group c n maskB bitIx readPos writePos outBuf =
            decompress_group c n maskB (bitIx + 1) (readPos + 1) (writePos + 1)
              (outBuf[writePos := c ! readPos])"
          using b w w' t False
          by (subst decompress_group.simps) (simp add: Let_def del: push_bit_of_1)
        from "1.IH"(1) [OF True refl t False w' "1.prems"(1) r]
        show ?thesis
          unfolding unf k using set
          by (auto simp: set_bits_Suc split: sum.splits)
      qed
    next
      case clear: False
      then have t: "\<not> (maskB AND push_bit bitIx 1 \<noteq> 0)"
        using b by (simp add: test_bit_conv del: push_bit_of_1)
      have unf: "decompress_group c n maskB bitIx readPos writePos outBuf =
          decompress_group c n maskB (bitIx + 1) readPos (writePos + 1) (outBuf[writePos := 0])"
        using b w w' t
        by (subst decompress_group.simps) (simp add: Let_def del: push_bit_of_1)
      from "1.IH"(2) [OF True refl t w' "1.prems"]
      show ?thesis
        unfolding unf k using clear
        by (auto simp: set_bits_Suc split: sum.splits)
    qed
  qed
qed


lemma decompress_loop_errors:
  assumes "n \<le> 1024" and "readPos \<le> length c"
    and "decompress_loop c n readPos writePos outBuf = Inl e"
  shows "e = TruncatedData"
  using assms
proof (induction c n readPos writePos outBuf rule: decompress_loop.induct)
  case (1 c n readPos writePos outBuf)
  show ?case
  proof (cases "readPos < length c \<and> writePos < n")
    case False
    then have "decompress_loop c n readPos writePos outBuf = Inr outBuf"
      by (subst decompress_loop.simps) auto
    with "1.prems"(3) show ?thesis by simp
  next
    case True
    then have r: "readPos + 1 \<le> length c" and nr: "\<not> length c \<le> readPos" by simp_all
    note cnt = decompress_group_count [OF "1.prems"(1) r, of "c ! readPos" 0 writePos outBuf]
    show ?thesis
    proof (cases "decompress_group c n (c ! readPos) 0 (readPos + 1) writePos outBuf")
      case (Inl e')
      then have "decompress_loop c n readPos writePos outBuf = Inl e'"
        using True by (subst decompress_loop.simps) simp
      with cnt Inl "1.prems"(3) show ?thesis by simp
    next
      case (Inr t)
      obtain r' w' ob' where t: "t = (r', w', ob')" by (cases t)
      have unf: "decompress_loop c n readPos writePos outBuf = decompress_loop c n r' w' ob'"
        using True Inr t by (subst decompress_loop.simps) simp
      have "r' \<le> length c" using cnt Inr t by simp
      from "1.IH" [OF True nr refl Inr [unfolded t] refl refl "1.prems"(1) this]
        "1.prems"(3) [unfolded unf]
      show ?thesis by simp
    qed
  qed
qed

lemma decompress_loop_full_group:
  assumes "n \<le> 1024" and "drop readPos c = m # ls @ rest"
    and "length ls = set_bits m 0 8" and "writePos + 8 \<le> n"
  shows "\<exists>ob'. decompress_loop c n readPos writePos outBuf =
                decompress_loop c n (readPos + 1 + length ls) (writePos + 8) ob'"
proof -
  note d = drop_eq_Cons_nth [OF assms(2)]
  from d(1) have r: "readPos + 1 \<le> length c" by simp
  have "length (drop (Suc readPos) c) = length c - Suc readPos" by simp
  with d(3) have avail: "readPos + 1 + length ls \<le> length c" using d(1) by simp
  have k: "min (8 - 0) (n - writePos) = 8" using assms(4) by simp
  note cnt = decompress_group_count [OF assms(1) r, of m 0 writePos outBuf, unfolded k]
  show ?thesis
  proof (cases "decompress_group c n m 0 (readPos + 1) writePos outBuf")
    case (Inl e)
    with cnt avail assms(3) show ?thesis by simp
  next
    case (Inr t)
    obtain r' w' ob' where t: "t = (r', w', ob')" by (cases t)
    have "decompress_loop c n readPos writePos outBuf = decompress_loop c n r' w' ob'"
      using d(1,2) assms(4) Inr t by (subst decompress_loop.simps) simp
    moreover have "r' = readPos + 1 + length ls" "w' = writePos + 8"
      using cnt Inr t assms(3) by simp_all
    ultimately show ?thesis by blast
  qed
qed

lemma decompress_loop_groups:
  assumes "n \<le> 1024" and "drop readPos c = group_bytes gs @ rest"
    and "\<forall>(m, ls) \<in> set gs. length ls = set_bits m 0 8"
    and "writePos + 8 * length gs \<le> n"
  shows "\<exists>ob'. decompress_loop c n readPos writePos outBuf =
                decompress_loop c n (readPos + length (group_bytes gs)) (writePos + 8 * length gs) ob'"
  using assms
proof (induction gs arbitrary: readPos writePos outBuf)
  case Nil
  show ?case by (auto simp: group_bytes_def)
next
  case (Cons g gs)
  obtain m ls where g: "g = (m, ls)" by (cases g)
  have d: "drop readPos c = m # ls @ (group_bytes gs @ rest)"
    using Cons.prems(2) by (simp add: g group_bytes_def)
  have l: "length ls = set_bits m 0 8" using Cons.prems(3) by (simp add: g)
  have w: "writePos + 8 \<le> n" using Cons.prems(4) by simp
  from decompress_loop_full_group [OF Cons.prems(1) d l w]
  obtain ob1 where s1: "decompress_loop c n readPos writePos outBuf =
      decompress_loop c n (readPos + 1 + length ls) (writePos + 8) ob1" by blast
  have d2: "drop (readPos + 1 + length ls) c = group_bytes gs @ rest"
  proof -
    have "drop (readPos + 1 + length ls) c = drop (1 + length ls) (drop readPos c)"
      by (simp add: add.commute)
    then show ?thesis unfolding d by simp
  qed
  have "\<exists>ob'. decompress_loop c n (readPos + 1 + length ls) (writePos + 8) ob1 =
      decompress_loop c n (readPos + 1 + length ls + length (group_bytes gs))
        (writePos + 8 + 8 * length gs) ob'"
    using Cons.prems(1,3,4) d2 by (intro Cons.IH) auto
  then show ?case
    unfolding s1 by (simp add: g group_bytes_def add.assoc)
qed

lemma decompress_loop_truncated:
  assumes "n \<le> 1024" and "drop readPos c = m # ls" and "writePos < n"
    and "length ls < set_bits m 0 (min 8 (n - writePos))"
  shows "decompress_loop c n readPos writePos outBuf = Inl TruncatedData"
proof -
  note d = drop_eq_Cons_nth [OF assms(2)]
  from d(1) have r: "readPos + 1 \<le> length c" by simp
  have "length (drop (Suc readPos) c) = length c - Suc readPos" by simp
  with d(3) have avail: "length c = readPos + 1 + length ls" using d(1) by simp
  note cnt = decompress_group_count [OF assms(1) r, of m 0 writePos outBuf]
  have "decompress_group c n m 0 (readPos + 1) writePos outBuf = Inl TruncatedData"
  proof (cases "decompress_group c n m 0 (readPos + 1) writePos outBuf")
    case (Inl e)
    with cnt show ?thesis by simp
  next
    case (Inr t)
    with cnt avail assms(4) show ?thesis by (auto split: prod.splits)
  qed
  then show ?thesis
    using d(1,2) assms(3) by (subst decompress_loop.simps) simp
qed

lemma length_resize: "length (resize buf n) = n"
  by (simp add: resize_def)

lemma decompressPacket_errors:
  assumes "decompressPacket c n = Inl e"
  shows "e = BadOriginalLength \<or> e = TruncatedData"
proof (cases "1024 < n")
  case True
  with assms show ?thesis by (simp add: decompressPacket_def)
next
  case False
  then have n: "n \<le> 1024" by simp
  from assms False obtain e' where "decompress_loop c n 0 0 (replicate 1024 0) = Inl e'" "e = e'"
    by (auto simp: decompressPacket_def split: sum.splits)
  with decompress_loop_errors [OF n, of 0 c 0 "replicate 1024 0" e'] show ?thesis by simp
qed

lemma compress_overflow_example: "compressPacket (replicate 911 1) = Inl CompressOverflow"
  by (simp add: compressPacket_spec length_zs_encode)

section \<open>Wire codec: properties of parseClientMessage\<close>

lemma ClientMessageType_of_unknown:
  "\<not> (1 \<le> b \<and> b \<le> 8) \<Longrightarrow> ClientMessageType_of b = None"
  by (auto simp: ClientMessageType_of_def)

lemma string_end_takeWhile:
  "string_end buffer limit e =
     e + length (takeWhile (\<lambda>b. b \<noteq> 0) (take (limit - e) (drop e buffer)))"
proof (induction buffer limit e rule: string_end.induct)
  case (1 buffer limit e)
  show ?case
  proof (cases "e < length buffer \<and> e < limit \<and> buffer ! e \<noteq> 0")
    case True
    then have d: "drop e buffer = buffer ! e # drop (e + 1) buffer"
      by (simp add: Cons_nth_drop_Suc)
    have l: "limit - e = Suc (limit - (e + 1))" using True by auto
    have "string_end buffer limit e = string_end buffer limit (e + 1)"
      using True by (subst string_end.simps) simp
    also have "\<dots> = e + 1 + length (takeWhile (\<lambda>b. b \<noteq> 0) (take (limit - (e + 1)) (drop (e + 1) buffer)))"
      using "1.IH" [OF True] .
    finally show ?thesis
      using True unfolding d l by simp
  next
    case False
    have s: "string_end buffer limit e = e"
      using False by (subst string_end.simps) auto
    have "takeWhile (\<lambda>b. b \<noteq> 0) (take (limit - e) (drop e buffer)) = []"
    proof (cases "e < length buffer \<and> e < limit")
      case True
      with False have z: "buffer ! e = 0" by simp
      from True have d: "drop e buffer = buffer ! e # drop (e + 1) buffer"
        by (simp add: Cons_nth_drop_Suc)
      have l: "limit - e = Suc (limit - (e + 1))" using True by auto
      show ?thesis unfolding d l using z by simp
    next
      case False
      then show ?thesis by auto
    qed
    with s show ?thesis by simp
  qed
qed

lemma readString_eq:
  assumes "offset < length buffer"
  shows "readString buffer offset maxLen =
           Some (takeWhile (\<lambda>b. b \<noteq> 0) (take maxLen (drop offset buffer)), offset + maxLen)"
proof -
  let ?f = "take maxLen (drop offset buffer)"
  let ?s = "takeWhile (\<lambda>b. b \<noteq> 0) ?f"
  have "length ?s \<le> maxLen"
    by (rule order_trans [OF length_takeWhile_le]) simp
  then have "take (length ?s) (drop offset buffer) = take (length ?s) ?f"
    by (simp add: min_def)
  also have "\<dots> = ?s"
    by (rule takeWhile_eq_take [symmetric])
  finally show ?thesis
    using assms by (simp add: readString_def span_at_def string_end_takeWhile Let_def)
qed

lemma parse_Input_short:
  assumes "5 \<le> length buffer" and "length buffer < 15" and "buffer ! 0 = 2"
  shows "parseClientMessage buffer = OutOfBounds"
proof -
  have t: "ClientMessageType_of (buffer ! 0) = Some Input"
    using assms(3) by (simp add: ClientMessageType_of_def)
  have "parse_payload Input buffer 5 = None"
    using assms(2) by (auto simp: Let_def span_at_def)
  then show ?thesis
    using assms(1) by (simp add: parseClientMessage_def Let_def t)
qed

section \<open>Single-precision arithmetic: the exponent\<close>

lemma pow2_powi: "pow2 k = 2 powi k"
  by (simp add: pow2_def power_int_def power_one_over inverse_eq_divide)

lemma pow2_pos: "0 < pow2 k"
  by (simp add: pow2_powi)

lemma pow2_nat: "0 \<le> k \<Longrightarrow> pow2 k = 2 ^ nat k"
  by (simp add: pow2_def)

lemma pow2_diff: "pow2 (a - b) = pow2 a / pow2 b"
  by (simp add: pow2_powi power_int_diff)

lemma pow2_mono: "a \<le> b \<Longrightarrow> pow2 a \<le> pow2 b"
  by (simp add: pow2_powi power_int_increasing)

lemma floor_log2_bounds:
  assumes "0 < y"
  shows "pow2 (floor_log2 y) \<le> y" and "y < pow2 (floor_log2 y + 1)"
proof -
  obtain p q where pq: "quotient_of y = (p, q)" by (cases "quotient_of y")
  have q0: "0 < q" using pq by (rule quotient_of_denom_pos)
  have y: "y = of_int p / of_int q" using pq by (rule quotient_of_div)
  have p0: "0 < p"
    using assms q0 unfolding y by (simp add: zero_less_divide_iff)
  define c where "c = bitlen p - bitlen q"
  have bp: "1 \<le> bitlen p" and bq: "1 \<le> bitlen q"
    using p0 q0 by (auto simp: bitlen_alt_def)
  note Bp = bitlen_bounds [OF p0] and Bq = bitlen_bounds [OF q0]
  have p_lo: "pow2 (bitlen p - 1) \<le> of_int p"
  proof -
    have "(of_int (2 ^ nat (bitlen p - 1)) :: rat) \<le> of_int p"
      using Bp by (simp only: of_int_le_iff)
    then show ?thesis using bp by (simp add: pow2_nat)
  qed
  have p_hi: "(of_int p :: rat) < pow2 (bitlen p)"
  proof -
    have "(of_int p :: rat) < of_int (2 ^ nat (bitlen p))"
      using Bp by (simp only: of_int_less_iff)
    then show ?thesis using bp by (simp add: pow2_nat)
  qed
  have q_lo: "pow2 (bitlen q - 1) \<le> of_int q"
  proof -
    have "(of_int (2 ^ nat (bitlen q - 1)) :: rat) \<le> of_int q"
      using Bq by (simp only: of_int_le_iff)
    then show ?thesis using bq by (simp add: pow2_nat)
  qed
  have q_hi: "(of_int q :: rat) < pow2 (bitlen q)"
  proof -
    have "(of_int q :: rat) < of_int (2 ^ nat (bitlen q))"
      using Bq by (simp only: of_int_less_iff)
    then show ?thesis using bq by (simp add: pow2_nat)
  qed
  have qr: "(0 :: rat) < of_int q" using q0 by simp
  have pr: "(0 :: rat) < of_int p" using p0 by simp
  have lo: "pow2 (c - 1) \<le> y"
  proof -
    have "pow2 (c - 1) = pow2 (bitlen p - 1) / pow2 (bitlen q)"
      by (simp add: c_def pow2_diff [symmetric] algebra_simps)
    also have "\<dots> \<le> of_int p / pow2 (bitlen q)"
      using p_lo pow2_pos [of "bitlen q"] by (simp add: divide_right_mono)
    also have "\<dots> \<le> of_int p / of_int q"
      using q_hi qr pr by (intro divide_left_mono) (simp_all add: pow2_pos)
    finally show ?thesis by (simp add: y)
  qed
  have hi: "y < pow2 (c + 1)"
  proof -
    have "y < pow2 (bitlen p) / of_int q"
      unfolding y using p_hi qr by (simp add: divide_strict_right_mono)
    also have "\<dots> \<le> pow2 (bitlen p) / pow2 (bitlen q - 1)"
      using q_lo pow2_pos [of "bitlen q - 1"] pow2_pos [of "bitlen p"]
      by (intro divide_left_mono) (simp_all add: less_imp_le)
    also have "\<dots> = pow2 (c + 1)"
      by (simp add: c_def pow2_diff [symmetric] algebra_simps)
    finally show ?thesis .
  qed
  have fl: "floor_log2 y = (if pow2 c \<le> y then c else c - 1)"
    by (simp add: floor_log2_def pq c_def)
  show "pow2 (floor_log2 y) \<le> y"
    using lo by (simp add: fl)
  show "y < pow2 (floor_log2 y + 1)"
    using hi by (auto simp: fl)
qed

lemma round_half_even_near: "\<bar>of_int (round_half_even y) - y\<bar> \<le> 1 / 2"
proof -
  have "of_int \<lfloor>y\<rfloor> \<le> y" and "y < of_int \<lfloor>y\<rfloor> + 1" by linarith+
  then show ?thesis
    by (auto simp: round_half_even_def Let_def abs_le_iff)
qed

section \<open>Wire codec: the bytes written by serializeServerMessage\<close>

lemma for_each_append:
  "for_each body (xs @ ys) s =
     (case for_each body xs s of None \<Rightarrow> None | Some s' \<Rightarrow> for_each body ys s')"
  by (induction xs arbitrary: s) (auto split: option.splits)

lemma for_each_store:
  "offset + n \<le> length buffer \<Longrightarrow>
   for_each (\<lambda>i buf. store buf (offset + i) (f i)) [0..<n] buffer
     = Some (take offset buffer @ map f [0..<n] @ drop (offset + n) buffer)"
proof (induction n)
  case 0
  show ?case by simp
next
  case (Suc n)
  then have lt: "offset + n < length buffer" by simp
  let ?mid = "take offset buffer @ map f [0..<n] @ drop (offset + n) buffer"
  have d: "drop (offset + n) buffer = buffer ! (offset + n) # drop (offset + Suc n) buffer"
    using lt by (simp add: Cons_nth_drop_Suc)
  have len: "length ?mid = length buffer" using lt by simp
  have upd: "?mid[offset + n := f n] = take offset buffer @ map f [0..<n] @ (drop (offset + n) buffer)[0 := f n]"
    using lt by (simp add: list_update_append)
  have "for_each (\<lambda>i buf. store buf (offset + i) (f i)) [0..<Suc n] buffer
      = store ?mid (offset + n) (f n)"
    using Suc by (simp add: for_each_append split: option.splits)
  also have "\<dots> = Some (?mid[offset + n := f n])"
    using lt len by (simp add: store_def)
  finally have step: "for_each (\<lambda>i buf. store buf (offset + i) (f i)) [0..<Suc n] buffer
      = Some (?mid[offset + n := f n])" .
  have e: "(drop (offset + n) buffer)[0 := f n] = f n # drop (offset + Suc n) buffer"
    by (subst d) simp
  show ?case
    unfolding step upd e by simp
qed

lemma length_le_bytes [simp]: "length (le_bytes (v :: 'a::len word)) = LENGTH('a) div 8"
  by (simp add: le_bytes_def)

lemma put_u8_emit: "room 1 w \<Longrightarrow> put_u8 v w = Some (emit [v] w)"
  by (cases w) (simp add: room_def put_u8_def emit_def store_def upd_conv_take_nth_drop)

lemma put_le_emit:
  "room (LENGTH('a) div 8) w \<Longrightarrow> put_le (v :: 'a::len word) w = Some (emit (le_bytes v) w)"
  by (cases w) (simp add: room_def put_le_def emit_def writeLittleEndian_def le_bytes_def
      for_each_store)

lemma emit_emit:
  assumes "room (length a + length b) w"
  shows "emit b (emit a w) = emit (a @ b) w"
proof -
  obtain buffer offset where w: "w = (buffer, offset)" by (cases w)
  from assms have le: "offset + length a + length b \<le> length buffer"
    by (simp add: w room_def)
  let ?mid = "take offset buffer @ a @ drop (offset + length a) buffer"
  have t: "take (offset + length a) ?mid = take offset buffer @ a"
    using le by simp
  have d: "drop (offset + (length a + length b)) ?mid = drop (offset + (length a + length b)) buffer"
    using le by (simp add: ac_simps)
  show ?thesis
    unfolding w emit_def by (simp add: t d add.assoc del: take_append drop_append)
qed

lemma room_emit: "room (length a + k) w \<Longrightarrow> room k (emit a w)"
  by (cases w) (simp add: room_def emit_def)

lemma room_mono: "room k w \<Longrightarrow> j \<le> k \<Longrightarrow> room j w"
  by (cases w) (simp add: room_def)

lemma emit_Nil [simp]: "emit [] w = w"
  by (cases w) (simp add: emit_def)

lemma for_each_emit:
  assumes "\<And>i w. i \<in> set xs \<Longrightarrow> room (length (bs i)) w \<Longrightarrow> step i w = Some (emit (bs i) w)"
    and "room (length (concat (map bs xs))) w"
  shows "for_each step xs w = Some (emit (concat (map bs xs)) w)"
  using assms
proof (induction xs arbitrary: w)
  case Nil
  show ?case by simp
next
  case (Cons x xs)
  have r: "room (length (bs x) + length (concat (map bs xs))) w"
    using Cons.prems(2) by simp
  have s: "step x w = Some (emit (bs x) w)"
    by (rule Cons.prems(1)) (use r in \<open>auto intro: room_mono\<close>)
  have "for_each step xs (emit (bs x) w) = Some (emit (concat (map bs xs)) (emit (bs x) w))"
    by (rule Cons.IH) (use Cons.prems(1) room_emit [OF r] in auto)
  then show ?case
    using emit_emit [OF r] by (simp add: s)
qed

lemma emit_step:
  assumes "room (length a + length b) w"
    and "\<And>w'. room (length b) w' \<Longrightarrow> step w' = Some (emit b w')"
  shows "step (emit a w) = Some (emit (a @ b) w)"
  using assms(2) [OF room_emit [OF assms(1)]] emit_emit [OF assms(1)] by simp

lemma length_concat_const:
  "(\<And>x. x \<in> set xs \<Longrightarrow> length (f x) = k) \<Longrightarrow> length (concat (map f xs)) = k * length xs"
  by (induction xs) auto

lemma serialize_emit:
  assumes ps: "payload_size pld maxPlayers 5 = Some sz"
    and sz: "sz \<le> max_size" "int (5 + length bs) \<le> sz"
    and wr: "\<And>w. room (length bs) w \<Longrightarrow> write_payload pld maxPlayers w = Some (emit bs w)"
  shows "serializeServerMessage hdr pld maxPlayers
           = Buffer ([ServerMessageType_value (ServerHeader.type hdr)]
               @ le_bytes (ServerHeader.sequence hdr) @ bs)"
proof -
  define n where "n = nat sz"
  define w0 :: writer where "w0 = (replicate n 0, 0)"
  define t where "t = ServerMessageType_value (ServerHeader.type hdr)"
  define h where "h = [t] @ le_bytes (ServerHeader.sequence hdr)"
  have lh: "length h = 5" by (simp add: h_def)
  have r0: "room (length h + length bs) w0"
    using sz(2) by (simp add: room_def w0_def n_def lh)
  have r1: "room (length [t] + length (le_bytes (ServerHeader.sequence hdr))) w0"
    using r0 by (auto intro: room_mono simp: lh)
  have s1: "put_u8 t w0 = Some (emit [t] w0)"
    by (rule put_u8_emit) (use r1 in \<open>auto intro: room_mono\<close>)
  have s2: "put_le (ServerHeader.sequence hdr) (emit [t] w0) = Some (emit h w0)"
    unfolding h_def by (rule emit_step [OF r1]) (rule put_le_emit, simp)
  have s3: "write_payload pld maxPlayers (emit h w0) = Some (emit (h @ bs) w0)"
    by (rule emit_step [OF r0]) (rule wr)
  define out where "out = h @ bs"
  have fin: "emit out w0 = (out @ replicate (n - length out) 0, length out)"
    by (simp add: emit_def w0_def)
  have le: "length out \<le> n"
    using sz(2) by (simp add: n_def out_def lh)
  have res: "(case emit out w0 of (buffer, offset) \<Rightarrow>
           if offset < length buffer then resize buffer offset else buffer) = out"
  proof (cases "length out < n")
    case True
    then show ?thesis unfolding fin by (simp add: resize_def)
  next
    case False
    with le have "n - length out = 0" by simp
    then show ?thesis unfolding fin by simp
  qed
  have run: "put_u8 (ServerMessageType_value (ServerHeader.type hdr)) (replicate (nat sz) 0, 0)
        \<bind> (\<lambda>w. put_le (ServerHeader.sequence hdr) w \<bind> write_payload pld maxPlayers)
      = Some (emit out w0)"
    unfolding n_def [symmetric] w0_def [symmetric] t_def [symmetric]
    by (simp add: s1 s2 s3 out_def)
  have "serializeServerMessage hdr pld maxPlayers = Buffer out"
    unfolding serializeServerMessage_def ps
    using sz(1) res by (cases "emit out w0") (simp add: run)
  then show ?thesis
    by (simp add: out_def h_def t_def)
qed

lemma size_add_nowrap:
  "0 \<le> sz \<Longrightarrow> 0 \<le> x \<Longrightarrow> sz + x < 18446744073709551616 \<Longrightarrow> size_add sz x = sz + x"
  by (simp add: size_add_def)

lemma int_mul_Some:
  "- 2147483648 \<le> a * b \<Longrightarrow> a * b \<le> 2147483647 \<Longrightarrow> int_mul a b = Some (a * b)"
  by (simp add: int_mul_def)

lemma config_size:
  assumes "0 \<le> sint maxPlayers" and "sint maxPlayers \<le> 536870911"
  shows "payload_size (Server_PlayersConfigurationData p) maxPlayers 5 = Some (6 + 4 * sint maxPlayers)"
proof -
  have m: "int_mul (sint maxPlayers) 4 = Some (sint maxPlayers * 4)"
    using assms by (intro int_mul_Some) simp_all
  have "size_add (size_add 5 1) (sint maxPlayers * 4) = 6 + 4 * sint maxPlayers"
    using assms by (simp add: size_add_nowrap)
  then show ?thesis
    by (simp add: m)
qed

lemma write_config_emit:
  assumes "room (length ([PlayersConfigurationDataPayload.numPlayers p]
      @ concat (map (\<lambda>i. le_bytes (PlayerConfigValues ! (i mod 4))) [0..<nat (sint maxPlayers)]))) w"
  shows "write_payload (Server_PlayersConfigurationData p) maxPlayers w
           = Some (emit ([PlayersConfigurationDataPayload.numPlayers p]
               @ concat (map (\<lambda>i. le_bytes (PlayerConfigValues ! (i mod 4))) [0..<nat (sint maxPlayers)])) w)"
proof -
  let ?vals = "concat (map (\<lambda>i. le_bytes (PlayerConfigValues ! (i mod 4))) [0..<nat (sint maxPlayers)])"
  let ?n = "PlayersConfigurationDataPayload.numPlayers p"
  have r: "room (length [?n] + length ?vals) w" using assms by simp
  have s1: "put_u8 ?n w = Some (emit [?n] w)"
    by (rule put_u8_emit) (use r in \<open>auto intro: room_mono\<close>)
  have s2: "for_each (\<lambda>i w. put_le (PlayerConfigValues ! (i mod 4)) w) [0..<nat (sint maxPlayers)] (emit [?n] w)
              = Some (emit ([?n] @ ?vals) w)"
    by (rule emit_step [OF r], rule for_each_emit) (auto intro: put_le_emit)
  have "length PlayerConfigValues = 4" by (simp add: PlayerConfigValues_def)
  then show ?thesis
    by (simp add: Let_def s1 s2)
qed

lemma config_layout:
  assumes "0 \<le> sint maxPlayers" and "sint maxPlayers \<le> 536870911"
  shows "serializeServerMessage hdr (Server_PlayersConfigurationData p) maxPlayers
     = Buffer ([ServerMessageType_value (ServerHeader.type hdr)] @ le_bytes (ServerHeader.sequence hdr)
       @ [PlayersConfigurationDataPayload.numPlayers p]
       @ concat (map (\<lambda>i. le_bytes (PlayerConfigValues ! (i mod 4))) [0..<nat (sint maxPlayers)]))"
proof -
  let ?bs = "[PlayersConfigurationDataPayload.numPlayers p]
       @ concat (map (\<lambda>i. le_bytes (PlayerConfigValues ! (i mod 4))) [0..<nat (sint maxPlayers)])"
  have l: "length (concat (map (\<lambda>i. le_bytes (PlayerConfigValues ! (i mod 4))) [0..<nat (sint maxPlayers)]))
      = 2 * nat (sint maxPlayers)"
    using length_concat_const [of "[0..<nat (sint maxPlayers)]" "\<lambda>i. le_bytes (PlayerConfigValues ! (i mod 4))" 2]
    by simp
  have "serializeServerMessage hdr (Server_PlayersConfigurationData p) maxPlayers
     = Buffer ([ServerMessageType_value (ServerHeader.type hdr)] @ le_bytes (ServerHeader.sequence hdr) @ ?bs)"
  proof (rule serialize_emit [OF config_size [OF assms]])
    show "6 + 4 * sint maxPlayers \<le> max_size"
      using assms by (simp add: max_size_def)
    show "int (5 + length ?bs) \<le> 6 + 4 * sint maxPlayers"
      using assms by (simp add: l)
    show "write_payload (Server_PlayersConfigurationData p) maxPlayers w = Some (emit ?bs w)"
      if "room (length ?bs) w" for w
      using that by (rule write_config_emit)
  qed
  then show ?thesis by simp
qed

lemma int_sum_list: "int (sum_list (map f xs)) = sum_list (map (\<lambda>x. int (f x)) xs)"
  by (induction xs) auto

lemma fold_size_add:
  assumes "0 \<le> s" and "\<And>x. x \<in> set xs \<Longrightarrow> 0 \<le> g x"
    and "s + sum_list (map g xs) < 18446744073709551616"
  shows "fold (\<lambda>i sz. size_add sz (g i)) xs s = s + sum_list (map g xs)"
  using assms
proof (induction xs arbitrary: s)
  case Nil
  show ?case by simp
next
  case (Cons x xs)
  have nn: "0 \<le> sum_list (map g xs)"
    by (rule sum_list_nonneg) (use Cons.prems(2) in auto)
  have gx: "0 \<le> g x" using Cons.prems(2) by simp
  have st: "size_add s (g x) = s + g x"
    using Cons.prems(1,3) gx nn by (intro size_add_nowrap) simp_all
  have "fold (\<lambda>i sz. size_add sz (g i)) xs (s + g x) = s + g x + sum_list (map g xs)"
    by (rule Cons.IH) (use Cons.prems gx in \<open>auto simp: add.assoc\<close>)
  then show ?case by (simp add: st add.assoc)
qed

lemma sum_list_le_const:
  fixes g :: "'a \<Rightarrow> int"
  assumes "\<And>x. x \<in> set xs \<Longrightarrow> g x \<le> c"
  shows "sum_list (map g xs) \<le> c * int (length xs)"
  using assms by (induction xs) (auto simp: algebra_simps intro: add_mono)

lemma padded_sum:
  fixes nf :: "u8 list"
  shows "int (sum_list (map (\<lambda>pl. 4 * unat (padded nf 0 pl)) [0..<nat m]))
     = sum_list (map (\<lambda>i. int (unat (nf ! i)) * 4) [0..<nat (min m (size_to_int (length nf)))])"
proof -
  define L where "L = size_to_int (length nf)"
  define k where "k = nat (min m L)"
  have kn: "k \<le> nat m" by (simp add: k_def)
  then have sp: "[0..<nat m] = [0..<k] @ [k..<nat m]"
    by (metis le_add_diff_inverse upt_add_eq_append zero_le)
  have A: "map (\<lambda>pl. 4 * unat (padded nf 0 pl)) [0..<k] = map (\<lambda>i. 4 * unat (nf ! i)) [0..<k]"
    by (rule map_cong) (auto simp: padded_def k_def L_def)
  have B: "map (\<lambda>pl. 4 * unat (padded nf 0 pl)) [k..<nat m] = map (\<lambda>i. 0) [k..<nat m]"
    by (rule map_cong) (auto simp: padded_def k_def L_def)
  have "sum_list (map (\<lambda>pl. 4 * unat (padded nf 0 pl)) [0..<nat m])
      = sum_list (map (\<lambda>i. 4 * unat (nf ! i)) [0..<k])"
    by (subst sp) (simp add: A B del: upt_Suc)
  then show ?thesis
    by (simp add: int_sum_list k_def L_def mult.commute)
qed

lemma for_each_put_u8_emit:
  assumes "room (length xs) w"
  shows "for_each (\<lambda>i w. put_u8 (g i) w) xs w = Some (emit (map g xs) w)"
proof -
  have "for_each (\<lambda>i w. put_u8 (g i) w) xs w = Some (emit (concat (map (\<lambda>i. [g i]) xs)) w)"
    by (rule for_each_emit) (use assms in \<open>auto intro: put_u8_emit simp: length_concat_const [where k = 1]\<close>)
  moreover have "concat (map (\<lambda>i. [g i]) xs) = map g xs"
    by (induction xs) auto
  ultimately show ?thesis by simp
qed

lemma write_PlayerInput_emit:
  assumes cast: "static_cast_int16 (float_mul (rift p) (int_to_float 100)) = Some riftInt"
    and room: "room (length (PlayerInput_bytes p (nat (sint maxPlayers)) riftInt)) w"
  shows "write_payload (Server_PlayerInput p) maxPlayers w
           = Some (emit (PlayerInput_bytes p (nat (sint maxPlayers)) riftInt) w)"
proof -
  define n where "n = nat (sint maxPlayers)"
  define a0 where "a0 = [PlayerInputPayload.numPlayers p]"
  define a1 where "a1 = concat (map (\<lambda>i. le_bytes (padded (PlayerInputPayload.startFrame p) 0 i)) [0..<n])"
  define a2 where "a2 = map (\<lambda>i. padded (PlayerInputPayload.numFrames p) 0 i) [0..<n]"
  define a3 where "a3 = le_bytes (numPredictedOverrides p)"
  define a4 where "a4 = le_bytes (numZeroedOverrides p)"
  define a5 where "a5 = le_bytes (PlayerInputPayload.ping p)"
  define a6 where "a6 = le_bytes (PlayerInputPayload.packetsLossPercent p)"
  define a7 where "a7 = le_bytes riftInt"
  define a8 where "a8 = le_bytes (checksumAckFrame p)"
  define a9 where "a9 = concat (map (\<lambda>pl.
         concat (map (\<lambda>f. le_bytes (input_at (padded (PlayerInputPayload.inputPerFrame p) [] pl) f))
                     [0..<unat (padded (PlayerInputPayload.numFrames p) 0 pl)]))
         [0..<n])"
  note defs = a0_def a1_def a2_def a3_def a4_def a5_def a6_def a7_def a8_def a9_def
  have tot: "PlayerInput_bytes p n riftInt = a0 @ a1 @ a2 @ a3 @ a4 @ a5 @ a6 @ a7 @ a8 @ a9"
    by (simp add: PlayerInput_bytes_def defs)
  have r: "room (length a0 + length a1 + length a2 + length a3 + length a4 + length a5
      + length a6 + length a7 + length a8 + length a9) w"
    using room by (simp add: tot n_def [symmetric] add.assoc)
  have e0: "put_u8 (PlayerInputPayload.numPlayers p) w = Some (emit a0 w)"
    unfolding a0_def by (rule put_u8_emit) (rule room_mono [OF r], simp add: a0_def)
  have e1: "for_each (\<lambda>i w. put_le (padded (PlayerInputPayload.startFrame p) 0 i) w) [0..<n] (emit a0 w)
      = Some (emit (a0 @ a1) w)"
    by (rule emit_step, rule room_mono [OF r], simp, unfold a1_def, rule for_each_emit)
      (auto intro: put_le_emit)
  have e2: "for_each (\<lambda>i w. put_u8 (padded (PlayerInputPayload.numFrames p) 0 i) w) [0..<n]
      (emit (a0 @ a1) w) = Some (emit ((a0 @ a1) @ a2) w)"
    by (rule emit_step, rule room_mono [OF r], simp, unfold a2_def, rule for_each_put_u8_emit) simp
  have e3: "put_le (numPredictedOverrides p) (emit ((a0 @ a1) @ a2) w)
      = Some (emit (((a0 @ a1) @ a2) @ a3) w)"
    by (rule emit_step, rule room_mono [OF r], simp, unfold a3_def, rule put_le_emit) simp
  have e4: "put_le (numZeroedOverrides p) (emit (((a0 @ a1) @ a2) @ a3) w)
      = Some (emit ((((a0 @ a1) @ a2) @ a3) @ a4) w)"
    by (rule emit_step, rule room_mono [OF r], simp, unfold a4_def, rule put_le_emit) simp
  have e5: "put_le (PlayerInputPayload.ping p) (emit ((((a0 @ a1) @ a2) @ a3) @ a4) w)
      = Some (emit (((((a0 @ a1) @ a2) @ a3) @ a4) @ a5) w)"
    by (rule emit_step, rule room_mono [OF r], simp, unfold a5_def, rule put_le_emit) simp
  have e6: "put_le (PlayerInputPayload.packetsLossPercent p) (emit (((((a0 @ a1) @ a2) @ a3) @ a4) @ a5) w)
      = Some (emit ((((((a0 @ a1) @ a2) @ a3) @ a4) @ a5) @ a6) w)"
    by (rule emit_step, rule room_mono [OF r], simp, unfold a6_def, rule put_le_emit) simp
  have e7: "put_le riftInt (emit ((((((a0 @ a1) @ a2) @ a3) @ a4) @ a5) @ a6) w)
      = Some (emit (((((((a0 @ a1) @ a2) @ a3) @ a4) @ a5) @ a6) @ a7) w)"
    by (rule emit_step, rule room_mono [OF r], simp, unfold a7_def, rule put_le_emit) simp
  have e8: "put_le (checksumAckFrame p) (emit (((((((a0 @ a1) @ a2) @ a3) @ a4) @ a5) @ a6) @ a7) w)
      = Some (emit ((((((((a0 @ a1) @ a2) @ a3) @ a4) @ a5) @ a6) @ a7) @ a8) w)"
    by (rule emit_step, rule room_mono [OF r], simp, unfold a8_def, rule put_le_emit) simp
  have inner: "for_each (\<lambda>f w. put_le (input_at arr f) w) [0..<k] w'
      = Some (emit (concat (map (\<lambda>f. le_bytes (input_at arr f)) [0..<k])) w')"
    if "room (length (concat (map (\<lambda>f. le_bytes (input_at arr f)) [0..<k]))) w'"
    for arr k w'
    by (rule for_each_emit) (use that in \<open>auto intro: put_le_emit\<close>)
  have e9: "for_each (\<lambda>pl w.
         for_each (\<lambda>f w. put_le (input_at (padded (PlayerInputPayload.inputPerFrame p) [] pl) f) w)
           [0..<unat (padded (PlayerInputPayload.numFrames p) 0 pl)] w)
       [0..<n] (emit ((((((((a0 @ a1) @ a2) @ a3) @ a4) @ a5) @ a6) @ a7) @ a8) w)
      = Some (emit (((((((((a0 @ a1) @ a2) @ a3) @ a4) @ a5) @ a6) @ a7) @ a8) @ a9) w)"
    by (rule emit_step, rule room_mono [OF r], simp, unfold a9_def, rule for_each_emit)
      (auto intro: inner)
  have "write_payload (Server_PlayerInput p) maxPlayers w
      = Some (emit (((((((((a0 @ a1) @ a2) @ a3) @ a4) @ a5) @ a6) @ a7) @ a8) @ a9) w)"
    by (simp add: Let_def input_at_def [symmetric] n_def [symmetric] cast
        e0 e1 e2 e3 e4 e5 e6 e7 e8 e9 del: append_assoc)
  then show ?thesis
    unfolding n_def [symmetric] tot by simp
qed

lemma length_input_bytes:
  "length (concat (map (\<lambda>pl.
         concat (map (\<lambda>f. le_bytes (h pl f :: u32)) [0..<k pl])) xs))
     = sum_list (map (\<lambda>pl. 4 * k pl) xs)"
proof -
  have "length (concat (map (\<lambda>f. le_bytes (h pl f :: u32)) [0..<k pl])) = 4 * k pl" for pl
    using length_concat_const [of "[0..<k pl]" "\<lambda>f. le_bytes (h pl f)" 4] by simp
  then show ?thesis
    by (simp add: length_concat comp_def)
qed

lemma length_PlayerInput_bytes:
  "length (PlayerInput_bytes p n riftInt)
     = 15 + 5 * n + sum_list (map (\<lambda>pl. 4 * unat (padded (PlayerInputPayload.numFrames p) 0 pl)) [0..<n])"
proof -
  have sf: "length (concat (map (\<lambda>i. le_bytes (padded (PlayerInputPayload.startFrame p) 0 i))
      [0..<n])) = 4 * n"
    using length_concat_const [of "[0..<n]"
        "\<lambda>i. le_bytes (padded (PlayerInputPayload.startFrame p) 0 i)" 4] by simp
  show ?thesis
    by (simp add: PlayerInput_bytes_def sf length_input_bytes)
qed

lemma PlayerInput_size:
  assumes "0 \<le> sint maxPlayers" and "sint maxPlayers \<le> 536870911"
  shows "payload_size (Server_PlayerInput p) maxPlayers 5
     = Some (int (5 + length (PlayerInput_bytes p (nat (sint maxPlayers)) riftInt)))"
    and "int (5 + length (PlayerInput_bytes p (nat (sint maxPlayers)) riftInt)) \<le> max_size"
proof -
  define m where "m = sint maxPlayers"
  define nf where "nf = PlayerInputPayload.numFrames p"
  define k where "k = nat (min m (size_to_int (length nf)))"
  define g where "g = (\<lambda>i. uint (nf ! i) * 4)"
  define S where "S = sum_list (map g [0..<k])"
  have m0: "0 \<le> m" and m1: "m \<le> 536870911" using assms by (simp_all add: m_def)
  have im: "int_mul m 4 = Some (m * 4)"
    using m0 m1 by (intro int_mul_Some) simp_all
  have g0: "0 \<le> g i" for i by (simp add: g_def)
  have g1: "g i \<le> 1020" for i
  proof -
    have "uint (nf ! i) < 2 ^ LENGTH(8)" by (rule unsigned_less)
    then show ?thesis by (simp add: g_def)
  qed
  have S0: "0 \<le> S" unfolding S_def by (rule sum_list_nonneg) (auto simp: g0)
  have "S \<le> 1020 * int (length [0..<k])"
    unfolding S_def by (rule sum_list_le_const) (rule g1)
  moreover have "int k \<le> m" using m0 by (simp add: k_def)
  ultimately have S1: "S \<le> 1020 * 536870911" using m1 by simp
  have pre: "size_add (size_add (size_add (size_add (size_add (size_add 5 1) (m * 4)) m) 4)
      6) 4 = 20 + 5 * m"
    using m0 m1 by (simp add: size_add_nowrap)
  have fo: "fold (\<lambda>i sz. size_add sz (g i)) [0..<k] (20 + 5 * m) = 20 + 5 * m + S"
    unfolding S_def
    by (rule fold_size_add) (use m0 m1 S1 g0 in \<open>auto simp: S_def [symmetric]\<close>)
  have ps: "payload_size (Server_PlayerInput p) maxPlayers 5 = Some (20 + 5 * m + S)"
    using fo [unfolded g_def]
    by (simp add: Let_def m_def [symmetric] nf_def [symmetric] k_def [symmetric] im pre)
  have len: "int (5 + length (PlayerInput_bytes p (nat m) riftInt)) = 20 + 5 * m + S"
    using m0 padded_sum [of nf m]
    by (simp add: length_PlayerInput_bytes nf_def [symmetric] S_def g_def k_def)
  show "payload_size (Server_PlayerInput p) maxPlayers 5
     = Some (int (5 + length (PlayerInput_bytes p (nat (sint maxPlayers)) riftInt)))"
    unfolding ps m_def [symmetric] len ..
  show "int (5 + length (PlayerInput_bytes p (nat (sint maxPlayers)) riftInt)) \<le> max_size"
    unfolding m_def [symmetric] len using m1 S1 by (simp add: max_size_def)
qed

lemma PlayerInput_layout:
  assumes "0 \<le> sint maxPlayers" and "sint maxPlayers \<le> 536870911"
    and "static_cast_int16 (float_mul (rift p) (int_to_float 100)) = Some riftInt"
  shows "serializeServerMessage hdr (Server_PlayerInput p) maxPlayers
     = Buffer ([ServerMessageType_value (ServerHeader.type hdr)] @ le_bytes (ServerHeader.sequence hdr)
       @ PlayerInput_bytes p (nat (sint maxPlayers)) riftInt)"
proof (rule serialize_emit [OF PlayerInput_size(1) [OF assms(1,2)] PlayerInput_size(2) [OF assms(1,2)]])
  show "int (5 + length (PlayerInput_bytes p (nat (sint maxPlayers)) riftInt))
      \<le> int (5 + length (PlayerInput_bytes p (nat (sint maxPlayers)) riftInt))"
    by simp
  show "write_payload (Server_PlayerInput p) maxPlayers w
      = Some (emit (PlayerInput_bytes p (nat (sint maxPlayers)) riftInt) w)"
    if "room (length (PlayerInput_bytes p (nat (sint maxPlayers)) riftInt)) w" for w
    using assms(3) that by (rule write_PlayerInput_emit)
qed

lemma rift_field:
  "take 2 (drop (14 + 5 * n)
      ([t] @ le_bytes (s :: u32) @ PlayerInput_bytes p n riftInt))
     = le_bytes riftInt"
proof -
  define pre where "pre = [t] @ le_bytes s
     @ [PlayerInputPayload.numPlayers p]
     @ concat (map (\<lambda>i. le_bytes (padded (PlayerInputPayload.startFrame p) 0 i)) [0..<n])
     @ map (\<lambda>i. padded (PlayerInputPayload.numFrames p) 0 i) [0..<n]
     @ le_bytes (numPredictedOverrides p)
     @ le_bytes (numZeroedOverrides p)
     @ le_bytes (PlayerInputPayload.ping p)
     @ le_bytes (PlayerInputPayload.packetsLossPercent p)"
  define post where "post = le_bytes (checksumAckFrame p)
     @ concat (map (\<lambda>pl.
         concat (map (\<lambda>f. le_bytes (input_at (padded (PlayerInputPayload.inputPerFrame p) [] pl) f))
                     [0..<unat (padded (PlayerInputPayload.numFrames p) 0 pl)]))
         [0..<n])"
  have sf: "length (concat (map (\<lambda>i. le_bytes (padded (PlayerInputPayload.startFrame p) 0 i))
      [0..<n])) = 4 * n"
    using length_concat_const [of "[0..<n]"
        "\<lambda>i. le_bytes (padded (PlayerInputPayload.startFrame p) 0 i)" 4] by simp
  have lp: "length pre = 14 + 5 * n"
    by (simp add: pre_def sf)
  have out: "[t] @ le_bytes s @ PlayerInput_bytes p n riftInt = pre @ le_bytes riftInt @ post"
    by (simp add: PlayerInput_bytes_def pre_def post_def)
  show ?thesis
    unfolding out using lp by simp
qed

lemma static_cast_int16_Finite:
  assumes "- 32769 < x" and "x < 32768"
  shows "static_cast_int16 (Finite x) = Some (word_of_int (truncate_toward_zero x))"
    and "sint (word_of_int (truncate_toward_zero x) :: i16) = truncate_toward_zero x"
proof -
  have r: "- 32768 \<le> truncate_toward_zero x \<and> truncate_toward_zero x \<le> 32767"
    using assms unfolding truncate_toward_zero_def
    by (auto simp: le_floor_iff floor_less_iff le_ceiling_iff ceiling_less_iff
        floor_le_iff ceiling_le_iff)
  then show "static_cast_int16 (Finite x) = Some (word_of_int (truncate_toward_zero x))"
    by (simp add: static_cast_int16_def)
  from r show "sint (word_of_int (truncate_toward_zero x) :: i16) = truncate_toward_zero x"
    by (simp add: sint_sbintrunc' signed_take_bit_int_eq_self)
qed

lemma int_to_float_100: "int_to_float 100 = Finite 100"
  by code_simp

lemma ucast_and_255: "(ucast ((w :: 'a::len word) AND 255) :: u8) = ucast w"
proof (rule bit_word_eqI)
  fix n assume "n < LENGTH(8)"
  have m: "(255 :: 'a word) = mask 8" by (simp add: mask_eq_exp_minus_1)
  show "bit (ucast (w AND 255) :: u8) n = bit (ucast w :: u8) n"
    unfolding m using \<open>n < LENGTH(8)\<close> by (auto simp: bit_simps dest: bit_imp_le_length)
qed

lemma le_bytes_u16: "le_bytes (v :: u16) = [ucast v, ucast (drop_bit 8 v)]"
proof -
  have "[0..<2] = [0, Suc 0]" by (simp add: upt_rec)
  then show ?thesis
    by (simp add: le_bytes_def ucast_and_255)
qed

lemma le_bytes_table: "map le_bytes [0, 257, 512, 769 :: u16] = [[0, 0], [1, 1], [0, 2], [1, 3]]"
  by (simp add: le_bytes_u16)

section \<open>Codec: the worked example\<close>

text \<open>
  Claim C8. The 16-byte input \<open>[0,0,1,0,0,0,2,0, 3,0,0,0,0,0,0,0]\<close> compresses to the five
  bytes \<open>[0b01000100, 1, 2, 0b00000001, 3]\<close> (68 is \<open>0b01000100\<close>: bits 2 and 6, the
  positions of the bytes 1 and 2 in the first group of eight, counted from the least
  significant bit), and decompressing these five bytes with \<open>originalLength = 16\<close> gives the
  input back.
\<close>

theorem C8_example_round_trip:
  "compressPacket [0,0,1,0,0,0,2,0, 3,0,0,0,0,0,0,0] = Inr [68, 1, 2, 1, 3] \<and>
   decompressPacket [68, 1, 2, 1, 3] 16 = Inr [0,0,1,0,0,0,2,0, 3,0,0,0,0,0,0,0]"
  by code_simp

section \<open>Codec: round trip\<close>

text \<open>
  Claim C1. For every byte buffer \<open>b\<close> of length at most 1024, if \<open>compressPacket b\<close>
  succeeds with the buffer \<open>c\<close>, then \<open>decompressPacket c (length b)\<close> succeeds and
  returns \<open>b\<close>.
\<close>

theorem C1_round_trip:
  "length b \<le> 1024 \<Longrightarrow> compressPacket b = Inr c \<Longrightarrow> decompressPacket c (length b) = Inr b"
proof -
  assume len: "length b \<le> 1024" and c: "compressPacket b = Inr c"
  from c have "c = zs_encode b"
    by (simp add: compressPacket_spec split: if_splits)
  with decompress_zs_encode [OF len] show ?thesis by simp
qed

text \<open>The round trip at the input \<open>[7, 0, 0, 9]\<close>, whose compressed form is \<open>[9, 7, 9]\<close>.\<close>

theorem C1_round_trip_witness:
  "length [7, 0, 0, 9 :: u8] \<le> 1024 \<and> compressPacket [7, 0, 0, 9] = Inr [9, 7, 9] \<and>
   decompressPacket [9, 7, 9] (length [7, 0, 0, 9 :: u8]) = Inr [7, 0, 0, 9]"
proof -
  have l: "length [7, 0, 0, 9 :: u8] \<le> 1024" by simp
  have c: "compressPacket [7, 0, 0, 9] = Inr [9, 7, 9]" by code_simp
  from C1_round_trip [OF l c] l c show ?thesis by simp
qed

section \<open>Codec: failures of decompressPacket\<close>

text \<open>
  Claim C2, as amended. \<open>decompressPacket c n\<close> fails with \<open>BadOriginalLength\<close> whenever
  \<open>n > 1024\<close>; whenever it succeeds the returned buffer has length exactly \<open>n\<close>; and it
  fails with \<open>TruncatedData\<close> whenever the buffer consists of any number of complete groups
  followed by a group whose mask has, among the positions still to be written (the first
  \<open>min 8 (n - 8 * length gs)\<close> bits), more set bits than literal bytes are left.
  Nothing is said here of a buffer that ends between two groups.
\<close>

theorem C2_decompress_failures:
  "(1024 < n \<longrightarrow> decompressPacket c n = Inl BadOriginalLength) \<and>
   (decompressPacket c n = Inr out \<longrightarrow> length out = n) \<and>
   (n \<le> 1024 \<and> (\<forall>(m', ls') \<in> set gs. length ls' = set_bits m' 0 8) \<and> 8 * length gs < n \<and>
      length ls < set_bits m 0 (min 8 (n - 8 * length gs)) \<longrightarrow>
    decompressPacket (group_bytes gs @ m # ls) n = Inl TruncatedData)"
proof (intro conjI impI)
  assume "1024 < n"
  then show "decompressPacket c n = Inl BadOriginalLength"
    by (simp add: decompressPacket_def)
next
  assume "decompressPacket c n = Inr out"
  then show "length out = n"
    by (auto simp: decompressPacket_def length_resize split: if_splits sum.splits)
next
  assume a: "n \<le> 1024 \<and> (\<forall>(m', ls') \<in> set gs. length ls' = set_bits m' 0 8) \<and> 8 * length gs < n \<and>
      length ls < set_bits m 0 (min 8 (n - 8 * length gs))"
  let ?c = "group_bytes gs @ m # ls"
  have "drop 0 ?c = group_bytes gs @ m # ls" by simp
  from decompress_loop_groups [OF _ this, of n 0 "replicate 1024 0"] a
  obtain ob where s: "decompress_loop ?c n 0 0 (replicate 1024 0) =
      decompress_loop ?c n (length (group_bytes gs)) (8 * length gs) ob"
    by auto
  have "decompress_loop ?c n (length (group_bytes gs)) (8 * length gs) ob = Inl TruncatedData"
    by (rule decompress_loop_truncated [where m = m and ls = ls]) (use a in auto)
  with s a show "decompressPacket ?c n = Inl TruncatedData"
    by (simp add: decompressPacket_def)
qed

text \<open>
  The amended claim at three inputs: a requested length of 1025; a successful call; and a
  buffer with one complete group (mask 3, literals 1 and 2) followed by the mask 5 with
  the single literal 8 where two are needed.
\<close>

theorem C2_witness:
  "decompressPacket [] 1025 = Inl BadOriginalLength \<and>
   decompressPacket [4, 9] 3 = Inr [0, 0, 9] \<and> length [0, 0, 9 :: u8] = 3 \<and>
   decompressPacket (group_bytes [(3, [1, 2])] @ 5 # [8]) 16 = Inl TruncatedData"
proof -
  have ok: "decompressPacket [4, 9] 3 = Inr [0, 0, 9]" by code_simp
  have sb: "set_bits 3 0 8 = 2" "set_bits 5 0 8 = 2" by code_simp+
  from C2_decompress_failures [of 1025 "[]"]
    C2_decompress_failures [of 3 "[4, 9]" "[0, 0, 9]"]
    C2_decompress_failures [of 16 _ _ "[(3, [1, 2])]" "[8]" 5] ok sb
  show ?thesis by simp
qed

text \<open>
  Claim C2 as stated fails at two inputs. The buffer \<open>[1, 5]\<close> is the compressed form
  \<open>[1, 5, 0]\<close> of a 16-byte packet cut before its second mask byte: the call with
  \<open>originalLength = 16\<close> returns 16 bytes and raises nothing, because the outer loop stops
  at the end of the input (its guard is \<^verbatim>\<open>readPos < compressedBuffer.size()\<close>).
  The buffer \<open>[255, 7]\<close> has eight set mask bits and one literal byte: with
  \<open>originalLength = 1\<close> the bits 1 to 7 are never looked at.
\<close>

theorem C2_counterexample:
  "compressPacket [5, 0,0,0,0,0,0,0, 0,0,0,0,0,0,0,0] = Inr [1, 5, 0] \<and>
   decompressPacket (take 2 [1, 5, 0]) 16 = Inr [5, 0,0,0,0,0,0,0, 0,0,0,0,0,0,0,0] \<and>
   decompressPacket [255, 7] 1 = Inr [7]"
  by code_simp

section \<open>Codec: failures and output size of compressPacket\<close>

text \<open>
  Claim C3. \<open>compressPacket b\<close> fails exactly when the compressed form of \<open>b\<close>, the list
  \<open>zs_encode b\<close>, is longer than 1024 bytes; a buffer it returns has at most 1024 bytes and
  is exactly \<open>zs_encode b\<close>, with no byte after it; the empty input gives the empty output.
  The length of \<open>zs_encode b\<close> is one mask byte for each started group of 8 input bytes
  plus the number of non-zero input bytes.
\<close>

theorem C3_compress_failure:
  "((\<exists>e. compressPacket b = Inl e) \<longleftrightarrow> 1024 < length (zs_encode b)) \<and>
   length (zs_encode b) = (length b + 7) div 8 + length (filter (\<lambda>v. v \<noteq> 0) b) \<and>
   (compressPacket b = Inr out \<longrightarrow> length out \<le> 1024 \<and> out = zs_encode b) \<and>
   compressPacket [] = Inr []"
  by (auto simp: compressPacket_spec length_zs_encode)

text \<open>
  Both sides at concrete inputs: a 9-byte input that compresses to 4 bytes, and 911
  non-zero bytes, whose compressed form would have \<open>114 + 911 = 1025\<close> bytes.
\<close>

theorem C3_compress_failure_witness:
  "compressPacket [0, 5, 0, 0, 0, 0, 0, 0, 1] = Inr [2, 5, 1, 1] \<and>
   length [2, 5, 1, 1 :: u8] \<le> 1024 \<and> [2, 5, 1, 1] = zs_encode [0, 5, 0, 0, 0, 0, 0, 0, 1] \<and>
   (\<exists>e. compressPacket (replicate 911 1) = Inl e) \<and> 1024 < length (zs_encode (replicate 911 1))"
proof -
  have c: "compressPacket [0, 5, 0, 0, 0, 0, 0, 0, 1] = Inr [2, 5, 1, 1]" by code_simp
  have l: "1024 < length (zs_encode (replicate 911 1))" by (simp add: length_zs_encode)
  from C3_compress_failure [of "[0, 5, 0, 0, 0, 0, 0, 0, 1]" "[2, 5, 1, 1]"]
    C3_compress_failure [of "replicate 911 1"] c l
  show ?thesis by auto
qed

text \<open>
  Claim C10. For an input of any length \<open>n\<close> with \<open>Z\<close> non-zero bytes, if
  \<open>\<lceil>n / 8\<rceil> + Z \<le> 1024\<close> then \<open>compressPacket\<close> succeeds and its output has exactly
  \<open>\<lceil>n / 8\<rceil> + Z\<close> bytes; \<open>\<lceil>n / 8\<rceil>\<close> is written \<open>(n + 7) div 8\<close>.
\<close>

theorem C10_compressed_length:
  "(length b + 7) div 8 + length (filter (\<lambda>v. v \<noteq> 0) b) \<le> 1024 \<Longrightarrow>
   \<exists>out. compressPacket b = Inr out \<and>
         length out = (length b + 7) div 8 + length (filter (\<lambda>v. v \<noteq> 0) b)"
  by (simp add: compressPacket_spec length_zs_encode)

text \<open>An input longer than 1024 bytes: 2000 zero bytes compress to 250 mask bytes.\<close>

theorem C10_compressed_length_witness:
  "(length (replicate 2000 (0 :: u8)) + 7) div 8
      + length (filter (\<lambda>v. v \<noteq> 0) (replicate 2000 (0 :: u8))) \<le> 1024 \<and>
   (\<exists>out. compressPacket (replicate 2000 0) = Inr out \<and> length out = 250)"
  using C10_compressed_length [of "replicate 2000 0"] by simp

section \<open>Wire codec: claims about parseClientMessage\<close>

text \<open>
  Claim C6. For a buffer whose type byte is \<open>NewConnection\<close> (1) and which holds the full
  fixed-width payload (106 bytes: the 5-byte header, three 16-bit fields, and string fields
  of 25, 45 and 25 bytes), the three strings are read at the offsets 11, 36 and 81: each
  is the bytes of its field up to, and without, the first zero byte, and each read moves
  the offset by the full width of the field, wherever the zero is.
\<close>

theorem C6_fixed_width_strings:
  assumes "106 \<le> length buffer" and "buffer ! 0 = 1"
  shows "readString buffer 11 25
           = Some (takeWhile (\<lambda>b. b \<noteq> 0) (take 25 (drop 11 buffer)), 11 + 25) \<and>
         readString buffer 36 45
           = Some (takeWhile (\<lambda>b. b \<noteq> 0) (take 45 (drop 36 buffer)), 36 + 45) \<and>
         readString buffer 81 25
           = Some (takeWhile (\<lambda>b. b \<noteq> 0) (take 25 (drop 81 buffer)), 81 + 25) \<and>
         parseClientMessage buffer =
           Message
             \<lparr> header = \<lparr> ClientHeader.type = NewConnection,
                           ClientHeader.sequence = readLittleEndian buffer 1 \<rparr>,
               payload = Client_NewConnection
                 \<lparr> messageVersion = readLittleEndian buffer 5,
                   playerData = \<lparr> teamId = readLittleEndian buffer 7,
                                  ClientPlayerConfigData.playerIndex = readLittleEndian buffer 9 \<rparr>,
                   matchData =
                     \<lparr> matchId = takeWhile (\<lambda>b. b \<noteq> 0) (take 25 (drop 11 buffer)),
                       key = takeWhile (\<lambda>b. b \<noteq> 0) (take 45 (drop 36 buffer)),
                       environmentId = takeWhile (\<lambda>b. b \<noteq> 0) (take 25 (drop 81 buffer)) \<rparr> \<rparr> \<rparr>"
proof -
  have r1: "readString buffer 11 25
      = Some (takeWhile (\<lambda>b. b \<noteq> 0) (take 25 (drop 11 buffer)), 36)"
    using assms(1) readString_eq [of 11 buffer 25] by simp
  have r2: "readString buffer 36 45
      = Some (takeWhile (\<lambda>b. b \<noteq> 0) (take 45 (drop 36 buffer)), 81)"
    using assms(1) readString_eq [of 36 buffer 45] by simp
  have r3: "readString buffer 81 25
      = Some (takeWhile (\<lambda>b. b \<noteq> 0) (take 25 (drop 81 buffer)), 106)"
    using assms(1) readString_eq [of 81 buffer 25] by simp
  have t: "ClientMessageType_of (buffer ! 0) = Some NewConnection"
    using assms(2) by (simp add: ClientMessageType_of_def)
  have p: "parse_payload NewConnection buffer 5 = Some (Client_NewConnection
                 \<lparr> messageVersion = readLittleEndian buffer 5,
                   playerData = \<lparr> teamId = readLittleEndian buffer 7,
                                  ClientPlayerConfigData.playerIndex = readLittleEndian buffer 9 \<rparr>,
                   matchData =
                     \<lparr> matchId = takeWhile (\<lambda>b. b \<noteq> 0) (take 25 (drop 11 buffer)),
                       key = takeWhile (\<lambda>b. b \<noteq> 0) (take 45 (drop 36 buffer)),
                       environmentId = takeWhile (\<lambda>b. b \<noteq> 0) (take 25 (drop 81 buffer)) \<rparr> \<rparr>)"
    by (simp add: Let_def r1 r2 r3)
  show ?thesis
    using assms(1) by (simp add: r1 r2 r3 parseClientMessage_def Let_def t p)
qed

text \<open>
  A 106-byte message: \<open>matchId\<close> is \<open>AB\<close> followed by a zero and a stray byte that is
  skipped, \<open>key\<close> fills its 45 bytes with no zero, \<open>environmentId\<close> is one byte.
\<close>

theorem C6_fixed_width_strings_witness:
  "106 \<le> length ([1, 1,0,0,0, 7,0, 9,0, 1,0] @ [65, 66, 0, 67] @ replicate 21 0
                   @ replicate 45 70 @ [71] @ replicate 24 (0 :: u8)) \<and>
   ([1, 1,0,0,0, 7,0, 9,0, 1,0] @ [65, 66, 0, 67] @ replicate 21 0
      @ replicate 45 70 @ [71] @ replicate 24 (0 :: u8)) ! 0 = 1 \<and>
   readString ([1, 1,0,0,0, 7,0, 9,0, 1,0] @ [65, 66, 0, 67] @ replicate 21 0
      @ replicate 45 70 @ [71] @ replicate 24 0) 11 25 = Some ([65, 66], 36) \<and>
   parseClientMessage ([1, 1,0,0,0, 7,0, 9,0, 1,0] @ [65, 66, 0, 67] @ replicate 21 0
      @ replicate 45 70 @ [71] @ replicate 24 0) =
     Message
       \<lparr> header = \<lparr> ClientHeader.type = NewConnection, ClientHeader.sequence = 1 \<rparr>,
         payload = Client_NewConnection
           \<lparr> messageVersion = 7,
             playerData = \<lparr> teamId = 9, ClientPlayerConfigData.playerIndex = 1 \<rparr>,
             matchData = \<lparr> matchId = [65, 66], key = replicate 45 70, environmentId = [71] \<rparr> \<rparr> \<rparr>"
proof -
  let ?B = "[1, 1,0,0,0, 7,0, 9,0, 1,0] @ [65, 66, 0, 67] @ replicate 21 0
      @ replicate 45 70 @ [71] @ replicate 24 (0 :: u8)"
  have l: "106 \<le> length ?B" by simp
  have t: "?B ! 0 = 1" by simp
  have s1: "takeWhile (\<lambda>b. b \<noteq> 0) (take 25 (drop 11 ?B)) = [65, 66]" by code_simp
  have s2: "takeWhile (\<lambda>b. b \<noteq> 0) (take 45 (drop 36 ?B)) = replicate 45 70" by code_simp
  have s3: "takeWhile (\<lambda>b. b \<noteq> 0) (take 25 (drop 81 ?B)) = [71]" by code_simp
  have v: "readLittleEndian ?B 1 = (1 :: u32)" "readLittleEndian ?B 5 = (7 :: u16)"
    "readLittleEndian ?B 7 = (9 :: u16)" "readLittleEndian ?B 9 = (1 :: u16)"
    by code_simp+
  from C6_fixed_width_strings [OF l t] l t show ?thesis
    unfolding s1 s2 s3 v by simp
qed

text \<open>
  Claim C7. \<open>parseClientMessage\<close> returns \<^verbatim>\<open>std::nullopt\<close> when the buffer is shorter
  than the 5-byte header, and when the type byte is not one of the values 1 to 8.
\<close>

theorem C7_unknown_or_short_is_nullopt:
  "length buffer < 5 \<or> \<not> (1 \<le> buffer ! 0 \<and> buffer ! 0 \<le> 8) \<Longrightarrow>
   parseClientMessage buffer = Nullopt"
  by (auto simp: parseClientMessage_def Let_def ClientMessageType_of_unknown)

text \<open>A 2-byte buffer, and a 6-byte buffer with the type byte 9.\<close>

theorem C7_unknown_or_short_is_nullopt_witness:
  "(length [3, 0 :: u8] < 5 \<or> \<not> (1 \<le> [3, 0 :: u8] ! 0 \<and> [3, 0 :: u8] ! 0 \<le> 8)) \<and>
   parseClientMessage [3, 0] = Nullopt \<and>
   (length [9, 0, 0, 0, 0, 0 :: u8] < 5 \<or>
      \<not> (1 \<le> [9, 0, 0, 0, 0, 0 :: u8] ! 0 \<and> [9, 0, 0, 0, 0, 0 :: u8] ! 0 \<le> 8)) \<and>
   parseClientMessage [9, 0, 0, 0, 0, 0] = Nullopt"
  using C7_unknown_or_short_is_nullopt [of "[3, 0]"]
    C7_unknown_or_short_is_nullopt [of "[9, 0, 0, 0, 0, 0]"]
  by simp

text \<open>
  Claim C9 says that every index at which \<open>parseClientMessage\<close> reads the buffer is below
  the buffer's size. It fails on the 5-byte buffer with type \<open>Input\<close>: after the two
  checked 32-bit reads the offset is 13, and \<^verbatim>\<open>payload.numFrames = buffer[offset++]\<close>
  indexes the span there without a check.
\<close>

theorem C9_unchecked_index: "parseClientMessage [2, 0, 0, 0, 0] = OutOfBounds"
  by code_simp

section \<open>Wire codec: claims about serializeServerMessage\<close>

text \<open>
  Claim C4, as amended. For every \<open>PlayerInput\<close> payload and every \<open>maxPlayers\<close> from 0 to
  536870911 (so that \<^verbatim>\<open>maxPlayers * 4\<close> fits an \<^verbatim>\<open>int\<close>): when the single-precision product
  \<^verbatim>\<open>p.rift * 100\<close> is a finite value \<open>x\<close> in the \<^verbatim>\<open>int16_t\<close> range, the call returns a
  buffer whose rift field, the two bytes at offset \<open>14 + 5 * maxPlayers\<close>, is the
  little-endian 16-bit value obtained from \<open>x\<close> by dropping its fractional part (rounding
  toward zero), as \<^verbatim>\<open>static_cast<int16_t>\<close> does.
\<close>

theorem C4_rift_is_truncated:
  assumes "0 \<le> sint maxPlayers" and "sint maxPlayers \<le> 536870911"
    and "float_mul (rift p) (int_to_float 100) = Finite x"
    and "- 32769 < x" and "x < 32768"
  shows "\<exists>out. serializeServerMessage hdr (Server_PlayerInput p) maxPlayers = Buffer out \<and>
           take 2 (drop (14 + 5 * nat (sint maxPlayers)) out)
             = le_bytes (word_of_int (truncate_toward_zero x) :: i16) \<and>
           sint (word_of_int (truncate_toward_zero x) :: i16) = truncate_toward_zero x"
proof -
  note c = static_cast_int16_Finite [OF assms(4,5)]
  have "static_cast_int16 (float_mul (rift p) (int_to_float 100))
      = Some (word_of_int (truncate_toward_zero x))"
    unfolding assms(3) by (rule c(1))
  from PlayerInput_layout [OF assms(1,2) this, of hdr] rift_field c(2)
  show ?thesis by blast
qed

text \<open>
  The amended claim at the \<^verbatim>\<open>float\<close> nearest to 0.29, which is \<open>9730785 / 2^25\<close>, with
  two players. The exact product is a little below 29; the single-precision product is
  29, and 29 is sent.
\<close>

theorem C4_rift_is_truncated_witness:
  "0 \<le> sint (2 :: i32) \<and> sint (2 :: i32) \<le> 536870911 \<and>
   float_mul (rift
       \<lparr> PlayerInputPayload.numPlayers = 2, PlayerInputPayload.startFrame = [], PlayerInputPayload.numFrames = [],
         PlayerInputPayload.numPredictedOverrides = 0, PlayerInputPayload.numZeroedOverrides = 0,
         PlayerInputPayload.ping = 0, PlayerInputPayload.packetsLossPercent = 0, PlayerInputPayload.rift = Finite (9730785 / 33554432),
         PlayerInputPayload.checksumAckFrame = 0, PlayerInputPayload.inputPerFrame = [] \<rparr>)
     (int_to_float 100) = Finite 29 \<and>
   - 32769 < (29 :: rat) \<and> (29 :: rat) < 32768 \<and>
   (\<exists>out. serializeServerMessage \<lparr> ServerHeader.type = PlayerInput, ServerHeader.sequence = 0 \<rparr>
      (Server_PlayerInput
       \<lparr> PlayerInputPayload.numPlayers = 2, PlayerInputPayload.startFrame = [], PlayerInputPayload.numFrames = [],
         PlayerInputPayload.numPredictedOverrides = 0, PlayerInputPayload.numZeroedOverrides = 0,
         PlayerInputPayload.ping = 0, PlayerInputPayload.packetsLossPercent = 0, PlayerInputPayload.rift = Finite (9730785 / 33554432),
         PlayerInputPayload.checksumAckFrame = 0, PlayerInputPayload.inputPerFrame = [] \<rparr>) 2 = Buffer out \<and>
      take 2 (drop (14 + 5 * nat (sint (2 :: i32))) out) = [29, 0])"
proof -
  have h1: "0 \<le> sint (2 :: i32)" and h2: "sint (2 :: i32) \<le> 536870911" by simp_all
  have h3: "float_mul (rift
       \<lparr> PlayerInputPayload.numPlayers = 2, PlayerInputPayload.startFrame = [], PlayerInputPayload.numFrames = [],
         PlayerInputPayload.numPredictedOverrides = 0, PlayerInputPayload.numZeroedOverrides = 0,
         PlayerInputPayload.ping = 0, PlayerInputPayload.packetsLossPercent = 0, PlayerInputPayload.rift = Finite (9730785 / 33554432),
         PlayerInputPayload.checksumAckFrame = 0, PlayerInputPayload.inputPerFrame = [] \<rparr>)
     (int_to_float 100) = Finite 29"
    by code_simp
  have h4: "- 32769 < (29 :: rat)" and h5: "(29 :: rat) < 32768" by simp_all
  have b: "le_bytes (word_of_int (truncate_toward_zero 29) :: i16) = [29, 0]"
    by code_simp
  from C4_rift_is_truncated [OF h1 h2 h3 h4 h5, of "\<lparr> ServerHeader.type = PlayerInput, ServerHeader.sequence = 0 \<rparr>"]
  show ?thesis
    unfolding b using h1 h2 h3 by auto
qed

text \<open>
  Claim C4 as stated, with \<open>round\<close>, fails at \<open>rift = 1.0078125\<close> (\<open>129 / 128\<close>, a value
  that single precision holds exactly, as it does the product \<open>100.78125\<close>): with two
  players the rift field, bytes 24 and 25 of the message, is written as 100, while
  \<open>round (rift * 100)\<close> is 101.
\<close>

theorem C4_counterexample:
  "round_to_float (129 / 128) = Finite (129 / 128) \<and>
   float_mul (Finite (129 / 128)) (int_to_float 100) = Finite (3225 / 32) \<and>
   round (3225 / 32 :: rat) = 101 \<and>
   serializeServerMessage \<lparr> ServerHeader.type = PlayerInput, ServerHeader.sequence = 0 \<rparr>
      (Server_PlayerInput
       \<lparr> PlayerInputPayload.numPlayers = 2, PlayerInputPayload.startFrame = [], PlayerInputPayload.numFrames = [],
         PlayerInputPayload.numPredictedOverrides = 0, PlayerInputPayload.numZeroedOverrides = 0,
         PlayerInputPayload.ping = 0, PlayerInputPayload.packetsLossPercent = 0, PlayerInputPayload.rift = Finite (129 / 128),
         PlayerInputPayload.checksumAckFrame = 0, PlayerInputPayload.inputPerFrame = [] \<rparr>) 2
     = Buffer [4, 0, 0, 0, 0, 2, 0, 0, 0, 0, 0, 0, 0, 0, 0, 0, 0, 0, 0, 0, 0, 0, 0, 0,
               100, 0, 0, 0, 0, 0]"
  by code_simp

text \<open>
  Claim C5, as amended. For every \<open>PlayersConfigurationData\<close> payload and every
  \<open>maxPlayers\<close> from 1 to 536870911 (so that \<^verbatim>\<open>maxPlayers * 4\<close> fits an \<^verbatim>\<open>int\<close>), the call
  returns a buffer of exactly \<open>5 + 1 + 2 * maxPlayers\<close> bytes: the 5-byte header (type
  byte and little-endian sequence number), the \<open>numPlayers\<close> byte, and then \<open>maxPlayers\<close>
  little-endian 16-bit values, the \<open>i\<close>-th being entry \<open>i mod 4\<close> of the table
  \<open>0, 257, 512, 769\<close>. Neither \<open>configValues\<close> nor \<open>numPlayers\<close> has any influence on
  these values or their number.
\<close>

theorem C5_configuration_layout:
  assumes "1 \<le> sint maxPlayers" and "sint maxPlayers \<le> 536870911"
  shows "serializeServerMessage hdr (Server_PlayersConfigurationData p) maxPlayers
     = Buffer ([ServerMessageType_value (ServerHeader.type hdr)] @ le_bytes (ServerHeader.sequence hdr)
         @ [PlayersConfigurationDataPayload.numPlayers p]
         @ concat (map (\<lambda>i. le_bytes ([0, 257, 512, 769 :: u16] ! (i mod 4)))
                       [0..<nat (sint maxPlayers)])) \<and>
   length ([ServerMessageType_value (ServerHeader.type hdr)] @ le_bytes (ServerHeader.sequence hdr)
         @ [PlayersConfigurationDataPayload.numPlayers p]
         @ concat (map (\<lambda>i. le_bytes ([0, 257, 512, 769 :: u16] ! (i mod 4)))
                       [0..<nat (sint maxPlayers)]))
     = 5 + 1 + 2 * nat (sint maxPlayers)"
proof -
  have l: "length (concat (map (\<lambda>i. le_bytes ([0, 257, 512, 769 :: u16] ! (i mod 4)))
      [0..<nat (sint maxPlayers)])) = 2 * nat (sint maxPlayers)"
    using length_concat_const [of "[0..<nat (sint maxPlayers)]"
        "\<lambda>i. le_bytes ([0, 257, 512, 769 :: u16] ! (i mod 4))" 2]
    by simp
  have "0 \<le> sint maxPlayers" using assms(1) by simp
  from config_layout [OF this assms(2), of hdr p] show ?thesis
    by (simp add: PlayerConfigValues_def l)
qed

text \<open>
  Two players: the header with sequence number 258, \<open>numPlayers\<close>, and the table entries
  0 and 257.
\<close>

theorem C5_configuration_layout_witness:
  "1 \<le> sint (2 :: i32) \<and> sint (2 :: i32) \<le> 536870911 \<and>
   serializeServerMessage \<lparr> ServerHeader.type = PlayersConfigurationData, ServerHeader.sequence = 258 \<rparr>
     (Server_PlayersConfigurationData \<lparr> PlayersConfigurationDataPayload.numPlayers = 2, configValues = [5, 6, 7] \<rparr>) 2
     = Buffer [10, 2, 1, 0, 0, 2, 0, 0, 1, 1] \<and>
   length [10, 2, 1, 0, 0, 2, 0, 0, 1, 1 :: u8] = 5 + 1 + 2 * nat (sint (2 :: i32))"
proof -
  have h1: "1 \<le> sint (2 :: i32)" and h2: "sint (2 :: i32) \<le> 536870911" by simp_all
  have e: "[ServerMessageType_value (ServerHeader.type \<lparr> ServerHeader.type = PlayersConfigurationData, ServerHeader.sequence = 258 \<rparr>)]
         @ le_bytes (ServerHeader.sequence \<lparr> ServerHeader.type = PlayersConfigurationData, ServerHeader.sequence = 258 \<rparr>)
         @ [PlayersConfigurationDataPayload.numPlayers \<lparr> PlayersConfigurationDataPayload.numPlayers = 2, configValues = [5, 6, 7] \<rparr>]
         @ concat (map (\<lambda>i. le_bytes ([0, 257, 512, 769 :: u16] ! (i mod 4)))
                       [0..<nat (sint (2 :: i32))])
       = [10, 2, 1, 0, 0, 2, 0, 0, 1, 1]"
    by code_simp
  from C5_configuration_layout [OF h1 h2, of "\<lparr> ServerHeader.type = PlayersConfigurationData, ServerHeader.sequence = 258 \<rparr>" "\<lparr> PlayersConfigurationDataPayload.numPlayers = 2, configValues = [5, 6, 7] \<rparr>"]
  show ?thesis
    unfolding e using h1 h2 by simp
qed

text \<open>
  Claim C5 as stated, for every \<open>maxPlayers \<ge> 1\<close>, fails at \<open>maxPlayers = 536870912\<close>:
  the size computation multiplies \<^verbatim>\<open>maxPlayers * 4\<close> in \<^verbatim>\<open>int\<close>, the product \<open>2^31\<close> does
  not fit, and the behaviour of the call is undefined.
\<close>

theorem C5_counterexample:
  "serializeServerMessage \<lparr> ServerHeader.type = PlayersConfigurationData, ServerHeader.sequence = 258 \<rparr>
     (Server_PlayersConfigurationData \<lparr> PlayersConfigurationDataPayload.numPlayers = 2, configValues = [5, 6, 7] \<rparr>) 536870912
     = Undefined"
  by code_simp

end
